theory Spec2Isabelle
  imports Main "HOL-Library.Multiset"
begin

section \<open>Task records and the JavaScript built-ins the list operations use\<close>

text \<open>
  Strings are sequences of 8-bit code units (\<open>string\<close>). The \<open>createdAt\<close> property
  holds a \<open>Date\<close> object when \<open>addTodo\<close> creates the record (\<open>new Date()\<close>, here its
  millisecond time value); \<open>JSON.parse\<close> never builds \<open>Date\<close> objects, so a record read
  back from storage holds the ISO string that \<open>Date.prototype.toJSON\<close> wrote.
\<close>

datatype timestamp = Date int | ISOString string

record todo =
  todo_id :: string
  "text" :: string
  completed :: bool
  createdAt :: timestamp

text \<open>
  \<open>String.prototype.trim\<close> strips white space and line terminators from both ends; below
  code unit 256 these are TAB, LF, VT, FF, CR, SPACE and NBSP.
\<close>

definition isWhiteSpace :: "char \<Rightarrow> bool" where
  "isWhiteSpace c = (of_char c \<in> {9, 10, 11, 12, 13, 32, 160 :: nat})"

definition trim :: "string \<Rightarrow> string" where
  "trim s = rev (dropWhile isWhiteSpace (rev (dropWhile isWhiteSpace s)))"

text \<open>\<open>Array.prototype.findIndex\<close>: the index of the first match, \<open>-1\<close> when there is none.\<close>

fun findIndexFrom :: "int \<Rightarrow> ('a \<Rightarrow> bool) \<Rightarrow> 'a list \<Rightarrow> int" where
  "findIndexFrom i p [] = -1"
| "findIndexFrom i p (x # xs) = (if p x then i else findIndexFrom (i + 1) p xs)"

definition findIndex :: "('a \<Rightarrow> bool) \<Rightarrow> 'a list \<Rightarrow> int" where
  "findIndex p xs = findIndexFrom 0 p xs"

text \<open>
  \<open>Array.prototype.splice(start, deleteCount, ...items)\<close>: a negative \<open>start\<close> counts from
  the end, \<open>start\<close> and \<open>deleteCount\<close> are clamped to the array. The result is the pair of
  the removed elements and the array after the call.
\<close>

definition splice :: "'a list \<Rightarrow> int \<Rightarrow> nat \<Rightarrow> 'a list \<Rightarrow> 'a list \<times> 'a list" where
  "splice xs start deleteCount ins =
     (let len = int (length xs);
          s = nat (if start < 0 then max (len + start) 0 else min start len);
          d = min deleteCount (length xs - s)
      in (take d (drop s xs), take s xs @ ins @ drop (s + d) xs))"

text \<open>
  \<open>arrayMove\<close> of \<open>@dnd-kit/sortable\<close>:
  \<^verbatim>\<open>
  const newArray = array.slice();
  newArray.splice(to < 0 ? newArray.length + to : to, 0, newArray.splice(from, 1)[0]);
  return newArray;
  \<close>
  The first argument of the outer \<open>splice\<close> is evaluated before the inner \<open>splice\<close> runs,
  so a negative \<open>to\<close> is resolved against the length before the removal. When the inner
  \<open>splice\<close> removes nothing, \<open>[0]\<close> of the empty result is \<open>undefined\<close>, and that is what
  gets inserted: the elements of the result are options, \<open>None\<close> standing for \<open>undefined\<close>.
\<close>

definition arrayMove :: "'a list \<Rightarrow> int \<Rightarrow> int \<Rightarrow> 'a option list" where
  "arrayMove array from to =
     (let newArray = map Some array;
          target = (if to < 0 then int (length newArray) + to else to);
          (removed, rest) = splice newArray from 1 [];
          item = (case removed of [] \<Rightarrow> None | x # _ \<Rightarrow> x)
      in snd (splice rest target 0 [item]))"

section \<open>JSON\<close>

text \<open>
  The values \<open>JSON.parse\<close> returns and \<open>JSON.stringify\<close> writes. A number is kept as its
  literal. Objects keep their properties in order.
\<close>

datatype json = JNull | JBool bool | JNumber string | JString string
  | JArray "json list" | JObject "(string \<times> json) list"

subsection \<open>\<open>JSON.stringify\<close>\<close>

definition hexDigit :: "nat \<Rightarrow> char" where
  "hexDigit n = ''0123456789abcdef'' ! (n mod 16)"

text \<open>
  \<open>QuoteJSONString\<close>: the quotation mark and the backslash are escaped, the control
  characters are written \<open>\b \t \n \f \r\<close> or \<open>\u00xx\<close>, anything else is copied.
\<close>

definition quoteChar :: "char \<Rightarrow> string" where
  "quoteChar c =
     (if c = CHR 0x22 then [CHR 0x5C, CHR 0x22]
      else if c = CHR 0x5C then [CHR 0x5C, CHR 0x5C]
      else if c = CHR 0x08 then [CHR 0x5C, CHR ''b'']
      else if c = CHR 0x09 then [CHR 0x5C, CHR ''t'']
      else if c = CHR 0x0A then [CHR 0x5C, CHR ''n'']
      else if c = CHR 0x0C then [CHR 0x5C, CHR ''f'']
      else if c = CHR 0x0D then [CHR 0x5C, CHR ''r'']
      else if (of_char c :: nat) < 32
        then [CHR 0x5C, CHR ''u'', CHR ''0'', CHR ''0'',
              hexDigit (of_char c div 16), hexDigit (of_char c)]
      else [c])"

definition quoteJSONString :: "string \<Rightarrow> string" where
  "quoteJSONString s = [CHR 0x22] @ concat (map quoteChar s) @ [CHR 0x22]"

fun commaSep :: "string list \<Rightarrow> string" where
  "commaSep [] = []"
| "commaSep [x] = x"
| "commaSep (x # y # ys) = x @ '','' @ commaSep (y # ys)"

fun serialize :: "json \<Rightarrow> string" where
  "serialize JNull = ''null''"
| "serialize (JBool b) = (if b then ''true'' else ''false'')"
| "serialize (JNumber n) = n"
| "serialize (JString s) = quoteJSONString s"
| "serialize (JArray xs) = ''['' @ commaSep (map serialize xs) @ '']''"
| "serialize (JObject ms) =
     ''{'' @ commaSep (map (\<lambda>(k, v). quoteJSONString k @ '':'' @ serialize v) ms) @ ''}''"

subsection \<open>\<open>JSON.parse\<close>\<close>

definition isJSONSpace :: "char \<Rightarrow> bool" where
  "isJSONSpace c = (c = CHR 0x20 \<or> c = CHR 0x09 \<or> c = CHR 0x0A \<or> c = CHR 0x0D)"

definition skipWs :: "string \<Rightarrow> string" where
  "skipWs cs = dropWhile isJSONSpace cs"

definition hexValue :: "char \<Rightarrow> nat option" where
  "hexValue c =
     (let n = (of_char c :: nat) in
      if 48 \<le> n \<and> n \<le> 57 then Some (n - 48)
      else if 97 \<le> n \<and> n \<le> 102 then Some (n - 87)
      else if 65 \<le> n \<and> n \<le> 70 then Some (n - 55)
      else None)"

text \<open>
  \<open>\uXXXX\<close>. Strings are sequences of 8-bit code units here: an escape above \<open>\u00ff\<close>,
  which \<open>JSON.parse\<close> reads, has no counterpart in \<open>char\<close> and is refused.
\<close>

definition unescapeUnicode :: "char \<Rightarrow> char \<Rightarrow> char \<Rightarrow> char \<Rightarrow> char option" where
  "unescapeUnicode a b c d =
     (case (hexValue a, hexValue b, hexValue c, hexValue d) of
        (Some p, Some q, Some r, Some s) \<Rightarrow>
          (if p = 0 \<and> q = 0 then Some (char_of (16 * r + s)) else None)
      | _ \<Rightarrow> None)"

definition unescapeSimple :: "char \<Rightarrow> char option" where
  "unescapeSimple e =
     (if e = CHR 0x22 \<or> e = CHR 0x5C \<or> e = CHR ''/'' then Some e
      else if e = CHR ''b'' then Some (CHR 0x08)
      else if e = CHR ''t'' then Some (CHR 0x09)
      else if e = CHR ''n'' then Some (CHR 0x0A)
      else if e = CHR ''f'' then Some (CHR 0x0C)
      else if e = CHR ''r'' then Some (CHR 0x0D)
      else None)"

definition consChar ::
  "char option \<Rightarrow> (string \<times> string) option \<Rightarrow> (string \<times> string) option" where
  "consChar c r =
     (case c of
        None \<Rightarrow> None
      | Some x \<Rightarrow> (case r of None \<Rightarrow> None | Some (s, rest) \<Rightarrow> Some (x # s, rest)))"

text \<open>The characters of a string literal after its opening quotation mark.\<close>

fun parseChars :: "string \<Rightarrow> (string \<times> string) option" where
  "parseChars [] = None"
| "parseChars (c # cs) =
     (if c = CHR 0x22 then Some ([], cs)
      else if c = CHR 0x5C then
        (case cs of
           [] \<Rightarrow> None
         | e # r \<Rightarrow>
             if e = CHR ''u'' then
               (case r of
                  a # b # c # d # r' \<Rightarrow> consChar (unescapeUnicode a b c d) (parseChars r')
                | _ \<Rightarrow> None)
             else consChar (unescapeSimple e) (parseChars r))
      else if (of_char c :: nat) < 32 then None
      else consChar (Some c) (parseChars cs))"

definition isDigit :: "char \<Rightarrow> bool" where
  "isDigit c = (48 \<le> (of_char c :: nat) \<and> (of_char c :: nat) \<le> 57)"

definition digits1 :: "string \<Rightarrow> (string \<times> string) option" where
  "digits1 cs =
     (let ds = takeWhile isDigit cs
      in if ds = [] then None else Some (ds, dropWhile isDigit cs))"

definition optSign :: "bool \<Rightarrow> string \<Rightarrow> string \<times> string" where
  "optSign withPlus cs =
     (case cs of
        [] \<Rightarrow> ([], cs)
      | c # r \<Rightarrow> if c = CHR ''-'' \<or> (withPlus \<and> c = CHR ''+'') then ([c], r) else ([], cs))"

definition intPart :: "string \<Rightarrow> (string \<times> string) option" where
  "intPart cs =
     (case digits1 cs of
        None \<Rightarrow> None
      | Some (ds, r) \<Rightarrow>
          if hd ds = CHR ''0'' then Some (''0'', tl ds @ r) else Some (ds, r))"

definition optFraction :: "string \<Rightarrow> (string \<times> string) option" where
  "optFraction cs =
     (case cs of
        [] \<Rightarrow> Some ([], cs)
      | c # r \<Rightarrow>
          if c = CHR ''.'' then map_option (\<lambda>(ds, r'). (c # ds, r')) (digits1 r)
          else Some ([], cs))"

definition optExponent :: "string \<Rightarrow> (string \<times> string) option" where
  "optExponent cs =
     (case cs of
        [] \<Rightarrow> Some ([], cs)
      | c # r \<Rightarrow>
          if c = CHR ''e'' \<or> c = CHR ''E'' then
            (let (sg, r') = optSign True r
             in map_option (\<lambda>(ds, r''). (c # sg @ ds, r'')) (digits1 r'))
          else Some ([], cs))"

definition parseNumber :: "string \<Rightarrow> (string \<times> string) option" where
  "parseNumber cs =
     (let (sg, r0) = optSign False cs
      in case intPart r0 of
           None \<Rightarrow> None
         | Some (ip, r1) \<Rightarrow>
             (case optFraction r1 of
                None \<Rightarrow> None
              | Some (fr, r2) \<Rightarrow>
                  (case optExponent r2 of
                     None \<Rightarrow> None
                   | Some (ex, r3) \<Rightarrow> Some (sg @ ip @ fr @ ex, r3))))"

fun stripPrefix :: "string \<Rightarrow> string \<Rightarrow> string option" where
  "stripPrefix [] cs = Some cs"
| "stripPrefix (p # ps) [] = None"
| "stripPrefix (p # ps) (c # cs) = (if p = c then stripPrefix ps cs else None)"

text \<open>
  The recursive descent, with the depth of the recursion bounded by the first argument;
  \<open>JSON_parse\<close> starts it with a bound no text of its length can use up.
\<close>

fun parseValue :: "nat \<Rightarrow> string \<Rightarrow> (json \<times> string) option"
  and parseElements :: "nat \<Rightarrow> string \<Rightarrow> (json list \<times> string) option"
  and parseMembers :: "nat \<Rightarrow> string \<Rightarrow> ((string \<times> json) list \<times> string) option"
where
  "parseValue 0 cs = None"
| "parseValue (Suc n) cs =
     (case skipWs cs of
        [] \<Rightarrow> None
      | c # r \<Rightarrow>
          if c = CHR 0x22 then map_option (\<lambda>(s, rest). (JString s, rest)) (parseChars r)
          else if c = CHR ''['' then
            (case skipWs r of
               [] \<Rightarrow> None
             | d # r' \<Rightarrow>
                 if d = CHR '']'' then Some (JArray [], r')
                 else map_option (\<lambda>(vs, rest). (JArray vs, rest)) (parseElements n r))
          else if c = CHR ''{'' then
            (case skipWs r of
               [] \<Rightarrow> None
             | d # r' \<Rightarrow>
                 if d = CHR ''}'' then Some (JObject [], r')
                 else map_option (\<lambda>(ms, rest). (JObject ms, rest)) (parseMembers n r))
          else if c = CHR ''t'' then map_option (Pair (JBool True)) (stripPrefix ''rue'' r)
          else if c = CHR ''f'' then map_option (Pair (JBool False)) (stripPrefix ''alse'' r)
          else if c = CHR ''n'' then map_option (Pair JNull) (stripPrefix ''ull'' r)
          else map_option (\<lambda>(s, rest). (JNumber s, rest)) (parseNumber (c # r)))"
| "parseElements 0 cs = None"
| "parseElements (Suc n) cs =
     (case parseValue n cs of
        None \<Rightarrow> None
      | Some (v, r) \<Rightarrow>
          (case skipWs r of
             [] \<Rightarrow> None
           | d # r' \<Rightarrow>
               if d = CHR '','' then
                 map_option (\<lambda>(vs, rest). (v # vs, rest)) (parseElements n r')
               else if d = CHR '']'' then Some ([v], r')
               else None))"
| "parseMembers 0 cs = None"
| "parseMembers (Suc n) cs =
     (case skipWs cs of
        [] \<Rightarrow> None
      | q # r \<Rightarrow>
          if q = CHR 0x22 then
            (case parseChars r of
               None \<Rightarrow> None
             | Some (k, r1) \<Rightarrow>
                 (case skipWs r1 of
                    [] \<Rightarrow> None
                  | c # r2 \<Rightarrow>
                      if c = CHR '':'' then
                        (case parseValue n r2 of
                           None \<Rightarrow> None
                         | Some (v, r3) \<Rightarrow>
                             (case skipWs r3 of
                                [] \<Rightarrow> None
                              | d # r4 \<Rightarrow>
                                  if d = CHR '','' then
                                    map_option (\<lambda>(ms, rest). ((k, v) # ms, rest))
                                      (parseMembers n r4)
                                  else if d = CHR ''}'' then Some ([(k, v)], r4)
                                  else None))
                      else None))
          else None)"

datatype js_error = SyntaxError | TypeError | DOMException

definition JSON_parse :: "string \<Rightarrow> js_error + json" where
  "JSON_parse s =
     (case parseValue (2 * length s + 2) s of
        None \<Rightarrow> Inl SyntaxError
      | Some (v, rest) \<Rightarrow> if skipWs rest = [] then Inr v else Inl SyntaxError)"

definition JSON_stringify :: "json \<Rightarrow> js_error + string" where
  "JSON_stringify v = Inr (serialize v)"

subsection \<open>\<open>Date.prototype.toISOString\<close>\<close>

definition digitChar :: "int \<Rightarrow> char" where
  "digitChar n = char_of (48 + n mod 10)"

fun padDigits :: "nat \<Rightarrow> int \<Rightarrow> string" where
  "padDigits 0 n = []"
| "padDigits (Suc k) n = padDigits k (n div 10) @ [digitChar n]"

text \<open>Year, month and day of a day number counted from 1970-01-01.\<close>

definition dateFromDays :: "int \<Rightarrow> int \<times> int \<times> int" where
  "dateFromDays days =
     (let z = days + 719468;
          era = z div 146097;
          doe = z - era * 146097;
          yoe = (doe - doe div 1460 + doe div 36524 - doe div 146096) div 365;
          doy = doe - (365 * yoe + yoe div 4 - yoe div 100);
          mp = (5 * doy + 2) div 153;
          d = doy - (153 * mp + 2) div 5 + 1;
          m = (if mp < 10 then mp + 3 else mp - 9);
          y = yoe + era * 400 + (if m \<le> 2 then 1 else 0)
      in (y, m, d))"

text \<open>
  The time value is in milliseconds since the epoch; a valid \<open>Date\<close> has one of absolute
  value at most \<open>8.64e15\<close>. Years outside \<open>0..9999\<close> are written with a sign and six digits.
\<close>

definition toISOString :: "int \<Rightarrow> string" where
  "toISOString t =
     (let (y, m, d) = dateFromDays (t div 86400000);
          ms = t mod 86400000;
          year = (if 0 \<le> y \<and> y \<le> 9999 then padDigits 4 y
                  else (if y < 0 then ''-'' else ''+'') @ padDigits 6 (abs y))
      in year @ ''-'' @ padDigits 2 m @ ''-'' @ padDigits 2 d @ ''T'' @
         padDigits 2 (ms div 3600000) @ '':'' @ padDigits 2 (ms div 60000 mod 60) @ '':'' @
         padDigits 2 (ms div 1000 mod 60) @ ''.'' @ padDigits 3 (ms mod 1000) @ ''Z'')"

subsection \<open>Task lists as JSON\<close>

text \<open>
  What \<open>JSON.stringify\<close> sees of a record: its four properties in the order \<open>addTodo\<close>
  creates them (the spread in \<open>toggleTodo\<close> keeps the order), the \<open>Date\<close> through its
  \<open>toJSON\<close>.
\<close>

definition timestampText :: "timestamp \<Rightarrow> string" where
  "timestampText c = (case c of Date t \<Rightarrow> toISOString t | ISOString s \<Rightarrow> s)"

definition todoToJSON :: "todo \<Rightarrow> json" where
  "todoToJSON t =
     JObject [(''id'', JString (todo_id t)), (''text'', JString (text t)),
              (''completed'', JBool (completed t)),
              (''createdAt'', JString (timestampText (createdAt t)))]"

text \<open>
  A parsed value read at the type \<open>Todo[]\<close>, in the shape \<open>todoToJSON\<close> writes. The hook
  does not check what it parses; a value of another shape (other properties, another
  order of them) is outside this typed reading (\<open>None\<close>).
\<close>

definition todoFromJSON :: "json \<Rightarrow> todo option" where
  "todoFromJSON j =
     (case j of
        JObject [(k1, JString i), (k2, JString s), (k3, JBool b), (k4, JString c)] \<Rightarrow>
          if k1 = ''id'' \<and> k2 = ''text'' \<and> k3 = ''completed'' \<and> k4 = ''createdAt''
          then Some \<lparr>todo_id = i, text = s, completed = b, createdAt = ISOString c\<rparr>
          else None
      | _ \<Rightarrow> None)"

fun allSome :: "'a option list \<Rightarrow> 'a list option" where
  "allSome [] = Some []"
| "allSome (None # xs) = None"
| "allSome (Some x # xs) = map_option ((#) x) (allSome xs)"

definition todosFromJSON :: "json \<Rightarrow> todo list option" where
  "todosFromJSON j = (case j of JArray xs \<Rightarrow> allSome (map todoFromJSON xs) | _ \<Rightarrow> None)"

section \<open>The hook \<open>useLocalStorage\<close>\<close>

text \<open>
  What the hook takes from its environment: \<open>JSON.stringify\<close> and \<open>JSON.parse\<close> at the
  value type (either may throw), and \<open>Object.is\<close>, by which React compares the
  dependencies of an effect.
\<close>

record 'a js =
  stringify :: "'a \<Rightarrow> js_error + string"
  parse :: "string \<Rightarrow> js_error + 'a"
  object_is :: "'a \<Rightarrow> 'a \<Rightarrow> bool"

text \<open>
  The browser: whether \<open>window\<close> is defined, the items of \<open>localStorage\<close>, whether its
  accessors throw, and what has been observed so far: the calls of \<open>setItem\<close> and the
  warnings on the console.
\<close>

record world =
  window :: bool
  items :: "string \<rightharpoonup> string"
  getItem_throws :: bool
  setItem_throws :: bool
  setItem_calls :: "(string \<times> string) list"
  warnings :: "(string \<times> js_error) list"

definition getItem :: "world \<Rightarrow> string \<Rightarrow> js_error + string option" where
  "getItem w k = (if getItem_throws w then Inl DOMException else Inr (items w k))"

definition setItem :: "world \<Rightarrow> string \<Rightarrow> string \<Rightarrow> js_error + world" where
  "setItem w k s =
     (if setItem_throws w then Inl DOMException
      else Inr (w\<lparr>items := (items w)(k \<mapsto> s)\<rparr>))"

definition called_setItem :: "string \<Rightarrow> string \<Rightarrow> world \<Rightarrow> world" where
  "called_setItem k s w = w\<lparr>setItem_calls := setItem_calls w @ [(k, s)]\<rparr>"

definition warn :: "string \<Rightarrow> js_error \<Rightarrow> world \<Rightarrow> world" where
  "warn msg e w = w\<lparr>warnings := warnings w @ [(msg, e)]\<rparr>"

definition read_warning :: "string \<Rightarrow> string" where
  "read_warning k = ''localStorage error for key '' @ [CHR 0x22] @ k @ [CHR 0x22] @ '':''"

definition write_warning :: "string \<Rightarrow> string" where
  "write_warning k =
     ''Failed to save to localStorage for key '' @ [CHR 0x22] @ k @ [CHR 0x22] @ '':''"

text \<open>
  \<open>SetStateAction<T>\<close>: a value or an updater. React applies the queued actions of a state
  in the order of the calls, each updater to the result of the actions before it.
\<close>

datatype 'a action = SetVal 'a | SetFn "'a \<Rightarrow> 'a"

fun reducer :: "'a \<Rightarrow> 'a action \<Rightarrow> 'a" where
  "reducer s (SetVal v) = v"
| "reducer s (SetFn f) = f s"

text \<open>
  One instance of the hook: its arguments, the two states as of the last render (what the
  caller's closures and the effects' closures see), the calls of the two setters not yet
  rendered, and which effects the last render scheduled.
\<close>

record 'a hook =
  key :: string
  initialValue :: 'a
  "value" :: 'a
  isHydrated :: bool
  valueQueue :: "'a action list"
  hydratedQueue :: "bool list"
  hydrateScheduled :: bool
  persistScheduled :: bool

definition useLocalStorage :: "string \<Rightarrow> 'a \<Rightarrow> 'a hook" where
  "useLocalStorage k v0 =
     \<lparr>key = k, initialValue = v0, value = v0, isHydrated = False,
      valueQueue = [], hydratedQueue = [],
      hydrateScheduled = True, persistScheduled = True\<rparr>"

definition setValue :: "'a action \<Rightarrow> 'a hook \<Rightarrow> 'a hook" where
  "setValue a h = h\<lparr>valueQueue := valueQueue h @ [a]\<rparr>"

definition setIsHydrated :: "bool \<Rightarrow> 'a hook \<Rightarrow> 'a hook" where
  "setIsHydrated b h = h\<lparr>hydratedQueue := hydratedQueue h @ [b]\<rparr>"

definition get :: "'a hook \<Rightarrow> 'a" where
  "get h = value h"

text \<open>The first effect (dependencies \<open>[key]\<close>): the hydration read.\<close>

definition hydrate :: "'a js \<Rightarrow> 'a hook \<times> world \<Rightarrow> 'a hook \<times> world" where
  "hydrate js = (\<lambda>(h, w).
     let (h', w') =
       (if window w then
          (case getItem w (key h) of
             Inl e \<Rightarrow> (h, warn (read_warning (key h)) e w)
           | Inr saved \<Rightarrow>
               (case saved of
                  None \<Rightarrow> (setValue (SetVal (initialValue h)) h, w)
                | Some s \<Rightarrow>
                    if s = [] then (setValue (SetVal (initialValue h)) h, w)
                    else (case parse js s of
                            Inl e \<Rightarrow> (h, warn (read_warning (key h)) e w)
                          | Inr v \<Rightarrow> (setValue (SetVal v) h, w))))
        else (h, w))
     in (setIsHydrated True h', w'))"

text \<open>The second effect (dependencies \<open>[key, value, isHydrated]\<close>): the write.\<close>

definition persist :: "'a js \<Rightarrow> 'a hook \<times> world \<Rightarrow> 'a hook \<times> world" where
  "persist js = (\<lambda>(h, w).
     if isHydrated h \<and> window w then
       (case stringify js (value h) of
          Inl e \<Rightarrow> (h, warn (write_warning (key h)) e w)
        | Inr s \<Rightarrow>
            (let w1 = called_setItem (key h) s w
             in case setItem w1 (key h) s of
                  Inl e \<Rightarrow> (h, warn (write_warning (key h)) e w1)
                | Inr w2 \<Rightarrow> (h, w2)))
     else (h, w))"

text \<open>
  After a commit React runs the scheduled effects in the order of their declaration. The
  closures of both effects hold the states of the render that scheduled them; the setters
  only queue.
\<close>

definition run_effects :: "'a js \<Rightarrow> 'a hook \<times> world \<Rightarrow> 'a hook \<times> world" where
  "run_effects js = (\<lambda>(h, w).
     let (h1, w1) = (if hydrateScheduled h then hydrate js (h, w) else (h, w));
         (h2, w2) = (if persistScheduled h then persist js (h1, w1) else (h1, w1))
     in (h2\<lparr>hydrateScheduled := False, persistScheduled := False\<rparr>, w2))"

text \<open>
  A render takes the queued actions into the states. \<open>key\<close> is the same at every render,
  so the first effect is never scheduled again; the second is scheduled when \<open>value\<close> or
  \<open>isHydrated\<close> is not the same (\<open>Object.is\<close>) as at the last render. With no action
  queued \<open>value\<close> is the very same; \<open>object_is\<close> is asked about the result of actions only.
\<close>

definition render :: "'a js \<Rightarrow> 'a hook \<Rightarrow> 'a hook" where
  "render js h =
     (let v = foldl reducer (value h) (valueQueue h);
          b = foldl (\<lambda>_ x. x) (isHydrated h) (hydratedQueue h)
      in h\<lparr>value := v, isHydrated := b, valueQueue := [], hydratedQueue := [],
           hydrateScheduled := False,
           persistScheduled :=
             ((valueQueue h \<noteq> [] \<and> \<not> object_is js (value h) v) \<or> b \<noteq> isHydrated h)\<rparr>)"

text \<open>
  The scheduler: pending effects are flushed before anything else is rendered; with no
  effect pending, queued actions are rendered; otherwise nothing happens.
\<close>

definition tick :: "'a js \<Rightarrow> 'a hook \<times> world \<Rightarrow> 'a hook \<times> world" where
  "tick js = (\<lambda>(h, w).
     if hydrateScheduled h \<or> persistScheduled h then run_effects js (h, w)
     else if valueQueue h \<noteq> [] \<or> hydratedQueue h \<noteq> [] then (render js h, w)
     else (h, w))"

datatype 'a event = Set "'a action" | Tick

fun step :: "'a js \<Rightarrow> 'a hook \<times> world \<Rightarrow> 'a event \<Rightarrow> 'a hook \<times> world" where
  "step js (h, w) (Set a) = (setValue a h, w)"
| "step js (h, w) Tick = tick js (h, w)"

definition run :: "'a js \<Rightarrow> 'a event list \<Rightarrow> 'a hook \<times> world \<Rightarrow> 'a hook \<times> world" where
  "run js evs s = foldl (step js) s evs"

section \<open>The component \<open>TodoList\<close>\<close>

text \<open>
  \<open>TodoList\<close> keeps its list in \<open>useLocalStorage<Todo[]>('todos', [])\<close>. The handlers are
  closures of a render: \<open>todos\<close> in them is \<open>value\<close> of that render. \<open>addTodo\<close>, \<open>toggleTodo\<close>
  and \<open>deleteTodo\<close> pass \<open>setTodos\<close> a list computed from \<open>todos\<close>; \<open>handleDragEnd\<close> passes
  an updater. \<open>crypto.randomUUID()\<close> and the time value of \<open>new Date()\<close> are inputs of
  \<open>addTodo\<close>. The text of the input field is not part of the model.
\<close>

definition TodoList :: "todo list hook" where
  "TodoList = useLocalStorage ''todos'' []"

definition addTodo :: "string \<Rightarrow> int \<Rightarrow> string \<Rightarrow> todo list hook \<Rightarrow> todo list hook" where
  "addTodo uuid now txt h =
     (if trim txt = [] then h
      else
        let newTodo = \<lparr>todo_id = uuid, text = trim txt, completed = False,
                       createdAt = Date now\<rparr>
        in setValue (SetVal (value h @ [newTodo])) h)"

definition toggleTodo :: "string \<Rightarrow> todo list hook \<Rightarrow> todo list hook" where
  "toggleTodo i h =
     setValue
       (SetVal (map (\<lambda>todo. if todo_id todo = i then todo\<lparr>completed := \<not> completed todo\<rparr>
                            else todo) (value h)))
       h"

definition deleteTodo :: "string \<Rightarrow> todo list hook \<Rightarrow> todo list hook" where
  "deleteTodo i h = setValue (SetVal (filter (\<lambda>todo. todo_id todo \<noteq> i) (value h))) h"

text \<open>The body of the updater of \<open>handleDragEnd\<close>, on the list it receives.\<close>

definition moveItems :: "string \<Rightarrow> string \<Rightarrow> todo list \<Rightarrow> todo option list" where
  "moveItems activeId overId = (\<lambda>items.
     let oldIndex = findIndex (\<lambda>item. todo_id item = activeId) items;
         newIndex = findIndex (\<lambda>item. todo_id item = overId) items
     in arrayMove items oldIndex newIndex)"

text \<open>
  \<open>over\<close> is \<open>null\<close> when the drag ends over nothing. The state is typed \<open>Todo[]\<close>: where
  \<open>arrayMove\<close> inserts \<open>undefined\<close> the element of the typed list is left unspecified
  (\<open>the None\<close>). That happens on the empty list only (\<open>moveItems_defined\<close> below), where
  there is nothing to drag.
\<close>

definition handleDragEnd :: "string \<Rightarrow> string option \<Rightarrow> todo list hook \<Rightarrow> todo list hook" where
  "handleDragEnd activeId over h =
     (case over of
        None \<Rightarrow> h
      | Some overId \<Rightarrow>
          if activeId \<noteq> overId
          then setValue (SetFn (\<lambda>items. map the (moveItems activeId overId items))) h
          else h)"

text \<open>
  What the user does: submit the form (with the id and the time the handler will draw),
  tick a checkbox, press a delete button, end a drag.
\<close>

datatype ui_event =
  AddTodo string int string
  | ToggleTodo string
  | DeleteTodo string
  | DragEnd string "string option"

fun handle :: "ui_event \<Rightarrow> todo list hook \<Rightarrow> todo list hook" where
  "handle (AddTodo uuid now txt) h = addTodo uuid now txt h"
| "handle (ToggleTodo i) h = toggleTodo i h"
| "handle (DeleteTodo i) h = deleteTodo i h"
| "handle (DragEnd activeId over) h = handleDragEnd activeId over h"

text \<open>The component in its browser: the user acts, or the scheduler of React takes a turn.\<close>

datatype app_event = Do ui_event | Turn

fun app_step :: "todo list js \<Rightarrow> todo list hook \<times> world \<Rightarrow> app_event \<Rightarrow> todo list hook \<times> world" where
  "app_step js (h, w) (Do e) = (handle e h, w)"
| "app_step js (h, w) Turn = tick js (h, w)"

definition app_run ::
  "todo list js \<Rightarrow> app_event list \<Rightarrow> todo list hook \<times> world \<Rightarrow> todo list hook \<times> world" where
  "app_run js evs s = foldl (app_step js) s evs"

section \<open>The hook at two value types\<close>

text \<open>
  Strings, as in \<open>useLocalStorage('test-key', 'initial')\<close>: primitives, compared by value.
  This instance agrees with the hook on stored texts that are absent, empty, not JSON, or
  a JSON string. A stored text that parses to something else than a string has no value
  of this type: the hook would take the parsed value as it is, the instance has \<open>parse\<close>
  fail. It is used below on string payloads only.
\<close>

definition string_js :: "string js" where
  "string_js =
     \<lparr>stringify = (\<lambda>s. JSON_stringify (JString s)),
      parse = (\<lambda>t. case JSON_parse t of
                        Inl e \<Rightarrow> Inl e
                      | Inr j \<Rightarrow> (case j of JString s \<Rightarrow> Inr s | _ \<Rightarrow> Inl TypeError)),
      object_is = (\<lambda>a b. a = b)\<rparr>"

text \<open>
  Task lists, as in \<open>TodoList\<close>: arrays, compared by reference. Every action of
  \<open>TodoList\<close> builds a new array, which is never the same as the one before. This
  instance agrees with the hook on stored texts that are absent, empty, not JSON, or the
  serialization of a task list as \<open>TodoList\<close> writes it. A stored text that parses to a
  value of another shape has no value of this type: the hook would take the parsed value
  as it is, the instance has \<open>parse\<close> fail. It is used below on serialized task lists only.
\<close>

definition todos_js :: "todo list js" where
  "todos_js =
     \<lparr>stringify = (\<lambda>ts. JSON_stringify (JArray (map todoToJSON ts))),
      parse = (\<lambda>t. case JSON_parse t of
                        Inl e \<Rightarrow> Inl e
                      | Inr j \<Rightarrow> (case todosFromJSON j of None \<Rightarrow> Inl TypeError | Some ts \<Rightarrow> Inr ts)),
      object_is = (\<lambda>a b. False)\<rparr>"

text \<open>A browser with an empty \<open>localStorage\<close> that works.\<close>

definition browser :: world where
  "browser =
     \<lparr>window = True, items = Map.empty, getItem_throws = False, setItem_throws = False,
      setItem_calls = [], warnings = []\<rparr>"

section \<open>Derived notions used in the statements and proofs\<close>

text \<open>What the read queues for \<open>value\<close>.\<close>

definition loaded :: "'a js \<Rightarrow> 'a hook \<Rightarrow> world \<Rightarrow> 'a action list" where
  "loaded js h w =
     (if window w then
        (case getItem w (key h) of
           Inl e \<Rightarrow> []
         | Inr None \<Rightarrow> [SetVal (initialValue h)]
         | Inr (Some s) \<Rightarrow>
             if s = [] then [SetVal (initialValue h)]
             else (case parse js s of Inl e \<Rightarrow> [] | Inr v \<Rightarrow> [SetVal v]))
      else [])"

text \<open>The value of the render that follows the read, when nothing else was queued.\<close>

definition hydrated_value :: "'a js \<Rightarrow> string \<Rightarrow> 'a \<Rightarrow> world \<Rightarrow> 'a" where
  "hydrated_value js k v0 w = foldl reducer v0 (loaded js (useLocalStorage k v0) w)"

text \<open>
  Until a render has \<open>isHydrated\<close> true, \<open>setItem\<close> has not been called and the items are
  as they were; and only \<open>true\<close> is ever queued for \<open>isHydrated\<close>.
\<close>

definition unwritten :: "(string \<times> string) list \<Rightarrow> (string \<rightharpoonup> string) \<Rightarrow> 'a hook \<times> world \<Rightarrow> bool" where
  "unwritten c0 i0 s =
     ((\<forall>b \<in> set (hydratedQueue (fst s)). b) \<and>
      (\<not> isHydrated (fst s) \<longrightarrow> setItem_calls (snd s) = c0 \<and> items (snd s) = i0))"

text \<open>A browser whose \<open>localStorage\<close> holds a saved string under \<open>test-key\<close>.\<close>

definition saved_browser :: world where
  "saved_browser = browser\<lparr>items := [''test-key'' \<mapsto> quoteJSONString ''saved-value'']\<rparr>"

text \<open>
  A single-element reorder, in the words of the specification: \<open>ys\<close> is \<open>xs\<close> with the
  element at \<open>i\<close> now at \<open>j\<close>, the elements between them shifted by one slot towards \<open>i\<close>,
  and every other element where it was.
\<close>

definition relocated :: "'a list \<Rightarrow> nat \<Rightarrow> nat \<Rightarrow> 'a list \<Rightarrow> bool" where
  "relocated xs i j ys =
     (length ys = length xs \<and> ys ! j = xs ! i \<and>
      (\<forall>k < length xs.
         (k < min i j \<or> max i j < k \<longrightarrow> ys ! k = xs ! k) \<and>
         (i \<le> k \<and> k < j \<longrightarrow> ys ! k = xs ! Suc k) \<and>
         (j < k \<and> k \<le> i \<longrightarrow> ys ! k = xs ! (k - 1))))"

text \<open>Two records, and the list of them as a render of \<open>TodoList\<close> shows it.\<close>

definition buyMilk :: todo where
  "buyMilk = \<lparr>todo_id = ''a'', text = ''Buy milk'', completed = False, createdAt = Date 0\<rparr>"

definition walkDog :: todo where
  "walkDog = \<lparr>todo_id = ''b'', text = ''Walk dog'', completed = False, createdAt = Date 1000\<rparr>"

definition twoTodos :: "todo list hook" where
  "twoTodos = render todos_js (setValue (SetVal [buyMilk, walkDog]) TodoList)"

text \<open>
  What each operation makes of the list it is computed from: the body of the handler,
  as a function of that list.
\<close>

fun applied :: "ui_event \<Rightarrow> todo list \<Rightarrow> todo list" where
  "applied (AddTodo uuid now txt) xs =
     (if trim txt = [] then xs
      else xs @ [\<lparr>todo_id = uuid, text = trim txt, completed = False, createdAt = Date now\<rparr>])"
| "applied (ToggleTodo i) xs =
     map (\<lambda>todo. if todo_id todo = i then todo\<lparr>completed := \<not> completed todo\<rparr> else todo) xs"
| "applied (DeleteTodo i) xs = filter (\<lambda>todo. todo_id todo \<noteq> i) xs"
| "applied (DragEnd activeId over) xs =
     (case over of
        None \<Rightarrow> xs
      | Some overId \<Rightarrow>
          if activeId \<noteq> overId then map the (moveItems activeId overId xs) else xs)"

text \<open>One operation per render: each handler is the one of the render before it.\<close>

fun one_per_render :: "todo list js \<Rightarrow> ui_event list \<Rightarrow> todo list hook \<Rightarrow> todo list hook" where
  "one_per_render js [] h = h"
| "one_per_render js (e # es) h = one_per_render js es (render js (handle e h))"

fun apply_all :: "ui_event list \<Rightarrow> todo list \<Rightarrow> todo list" where
  "apply_all [] xs = xs"
| "apply_all (e # es) xs = apply_all es (applied e xs)"

text \<open>
  Fresh ids along a run: whenever \<open>addTodo\<close> is called, the id it draws is not the id of a
  record of the list it appends to.
\<close>

fun fresh_ids :: "todo list js \<Rightarrow> todo list hook \<times> world \<Rightarrow> app_event list \<Rightarrow> bool" where
  "fresh_ids js s [] = True"
| "fresh_ids js s (ev # evs) =
     ((case ev of
         Do (AddTodo uuid now txt) \<Rightarrow> uuid \<notin> set (map todo_id (value (fst s)))
       | _ \<Rightarrow> True) \<and>
      fresh_ids js (app_step js s ev) evs)"

text \<open>An action that keeps the ids of a list pairwise distinct.\<close>

definition keeps_distinct :: "todo list action \<Rightarrow> bool" where
  "keeps_distinct a =
     (case a of
        SetVal v \<Rightarrow> distinct (map todo_id v)
      | SetFn f \<Rightarrow> (\<forall>xs. distinct (map todo_id xs) \<longrightarrow> distinct (map todo_id (f xs))))"

text \<open>
  The invariant of a run of \<open>TodoList\<close>: the ids are distinct in the rendered list, in the
  initial list and after every queued action, and until the hydration read has run the
  item under the key is the one of the beginning.
\<close>

definition ids_invariant :: "string option \<Rightarrow> todo list hook \<times> world \<Rightarrow> bool" where
  "ids_invariant saved s =
     (distinct (map todo_id (value (fst s))) \<and>
      distinct (map todo_id (initialValue (fst s))) \<and>
      (\<forall>a \<in> set (valueQueue (fst s)). keeps_distinct a) \<and>
      (hydrateScheduled (fst s) \<longrightarrow> items (snd s) (key (fst s)) = saved))"

text \<open>A browser whose \<open>localStorage\<close> holds the serialization of a task list under \<open>todos\<close>.\<close>

definition stored_browser :: "todo list \<Rightarrow> world" where
  "stored_browser ts = browser\<lparr>items := [''todos'' \<mapsto> serialize (JArray (map todoToJSON ts))]\<rparr>"

text \<open>
  A record as it comes back from storage: the same, with \<open>createdAt\<close> the ISO string of
  the \<open>Date\<close> it held (or the string it held already).
\<close>

definition reloaded :: "todo \<Rightarrow> todo" where
  "reloaded t = t\<lparr>createdAt := ISOString (timestampText (createdAt t))\<rparr>"

text \<open>The serialization of a record after its opening brace, followed by \<open>rest\<close>.\<close>

definition todoMembers :: "todo \<Rightarrow> string \<Rightarrow> string" where
  "todoMembers t rest =
     quoteJSONString ''id'' @ CHR '':'' # quoteJSONString (todo_id t) @ CHR '','' #
     (quoteJSONString ''text'' @ CHR '':'' # quoteJSONString (text t) @ CHR '','' #
      (quoteJSONString ''completed'' @ CHR '':'' # (if completed t then ''true'' else ''false'') @ CHR '','' #
       (quoteJSONString ''createdAt'' @ CHR '':'' # quoteJSONString (timestampText (createdAt t)) @
        CHR ''}'' # rest)))"

section \<open>Rendering a queue\<close>

lemma get_render: "get (render js h) = foldl reducer (value h) (valueQueue h)"
  by (simp add: get_def render_def Let_def)

lemma get_render_setValue:
  "get (render js (setValue a h)) = reducer (foldl reducer (value h) (valueQueue h)) a"
  by (simp add: get_render setValue_def)

lemma render_queue_empty: "valueQueue (render js h) = []"
  by (simp add: render_def Let_def)

section \<open>The effects and the scheduler\<close>

lemma fst_persist: "fst (persist js s) = fst s"
  by (cases s) (simp add: persist_def Let_def split: sum.splits)

lemma persist_not_hydrated: "\<not> isHydrated (fst s) \<Longrightarrow> persist js s = s"
  by (cases s) (simp add: persist_def)

lemma hydrate_hook:
  "key (fst (hydrate js s)) = key (fst s)"
  "initialValue (fst (hydrate js s)) = initialValue (fst s)"
  "value (fst (hydrate js s)) = value (fst s)"
  "isHydrated (fst (hydrate js s)) = isHydrated (fst s)"
  "hydrateScheduled (fst (hydrate js s)) = hydrateScheduled (fst s)"
  "persistScheduled (fst (hydrate js s)) = persistScheduled (fst s)"
  "hydratedQueue (fst (hydrate js s)) = hydratedQueue (fst s) @ [True]"
  by (cases s; simp add: hydrate_def Let_def setValue_def setIsHydrated_def
      split: sum.splits option.splits prod.splits)+

lemma hydrate_world:
  "window (snd (hydrate js s)) = window (snd s)"
  "items (snd (hydrate js s)) = items (snd s)"
  "getItem_throws (snd (hydrate js s)) = getItem_throws (snd s)"
  "setItem_throws (snd (hydrate js s)) = setItem_throws (snd s)"
  "setItem_calls (snd (hydrate js s)) = setItem_calls (snd s)"
  by (cases s; simp add: hydrate_def Let_def warn_def
      split: sum.splits option.splits prod.splits)+

lemma run_effects_hook:
  "value (fst (run_effects js s)) = value (fst s)"
  "isHydrated (fst (run_effects js s)) = isHydrated (fst s)"
  "key (fst (run_effects js s)) = key (fst s)"
  "initialValue (fst (run_effects js s)) = initialValue (fst s)"
  "hydrateScheduled (fst (run_effects js s)) = False"
  "persistScheduled (fst (run_effects js s)) = False"
  by (cases s; simp add: run_effects_def Let_def split_beta fst_persist hydrate_hook)+

lemma run_effects_not_hydrated:
  assumes "\<not> isHydrated (fst s)"
  shows "setItem_calls (snd (run_effects js s)) = setItem_calls (snd s)"
    and "items (snd (run_effects js s)) = items (snd s)"
  using assms
  by (cases s; simp add: run_effects_def Let_def split_beta persist_not_hydrated hydrate_hook
      hydrate_world)+

lemma run_effects_hydratedQueue:
  "set (hydratedQueue (fst (run_effects js s))) \<subseteq> insert True (set (hydratedQueue (fst s)))"
  by (cases s) (auto simp add: run_effects_def Let_def split_beta fst_persist hydrate_hook)

lemma run_Set: "run js (map Set as) (h, w) = (h\<lparr>valueQueue := valueQueue h @ as\<rparr>, w)"
  unfolding run_def
  by (induction as arbitrary: h) (simp_all add: setValue_def)

lemma run_append: "run js (xs @ ys) s = run js ys (run js xs s)"
  by (simp add: run_def)

lemma foldl_last_True: "\<forall>b \<in> set bs. b \<Longrightarrow> \<not> foldl (\<lambda>_ x. x) a bs \<Longrightarrow> \<not> a"
  by (induction bs arbitrary: a) auto

lemma unwritten_step: "unwritten c0 i0 s \<Longrightarrow> unwritten c0 i0 (step js s e)"
proof (cases s)
  case (Pair h w)
  assume u: "unwritten c0 i0 s"
  show ?thesis
  proof (cases e)
    case (Set a)
    with u Pair show ?thesis by (auto simp add: unwritten_def setValue_def)
  next
    case Tick
    consider (eff) "hydrateScheduled h \<or> persistScheduled h"
      | (ren) "\<not> (hydrateScheduled h \<or> persistScheduled h)"
              "valueQueue h \<noteq> [] \<or> hydratedQueue h \<noteq> []"
      | (idle) "\<not> (hydrateScheduled h \<or> persistScheduled h)"
               "\<not> (valueQueue h \<noteq> [] \<or> hydratedQueue h \<noteq> [])"
      by blast
    then show ?thesis
    proof cases
      case eff
      then have t: "step js s e = run_effects js (h, w)"
        using Tick Pair by (simp add: tick_def)
      have q: "\<forall>b \<in> set (hydratedQueue (fst (run_effects js (h, w)))). b"
        using u Pair run_effects_hydratedQueue [of js "(h, w)"] by (auto simp: unwritten_def)
      show ?thesis
        using u Pair q unfolding t unwritten_def
        by (simp add: run_effects_hook run_effects_not_hydrated)
    next
      case ren
      then have t: "step js s e = (render js h, w)"
        using Tick Pair by (simp add: tick_def)
      have q: "\<forall>b \<in> set (hydratedQueue h). b"
        using u Pair unfolding unwritten_def by auto
      have "\<not> isHydrated (render js h) \<Longrightarrow> \<not> isHydrated h"
        using foldl_last_True [OF q, of "isHydrated h"]
        by (simp add: render_def Let_def)
      moreover have "hydratedQueue (render js h) = []"
        by (simp add: render_def Let_def)
      ultimately show ?thesis
        using u Pair unfolding t unwritten_def
        by auto
    next
      case idle
      then have "step js s e = s" using Tick Pair by (simp add: tick_def)
      with u show ?thesis by simp
    qed
  qed
qed

lemma unwritten_run: "unwritten c0 i0 s \<Longrightarrow> unwritten c0 i0 (run js evs s)"
  unfolding run_def
  by (induction evs arbitrary: s) (simp_all add: unwritten_step)

lemma fst_hydrate:
  "fst (hydrate js (h, w)) =
     h\<lparr>valueQueue := valueQueue h @ loaded js h w, hydratedQueue := hydratedQueue h @ [True]\<rparr>"
  by (simp add: hydrate_def loaded_def Let_def setValue_def setIsHydrated_def
      split: sum.splits option.splits prod.splits)

lemma mount_effects:
  "run js [Tick] (useLocalStorage k v0, w) =
     ((useLocalStorage k v0)
        \<lparr>valueQueue := loaded js (useLocalStorage k v0) w, hydratedQueue := [True],
         hydrateScheduled := False, persistScheduled := False\<rparr>,
      snd (hydrate js (useLocalStorage k v0, w)))"
proof -
  let ?h = "useLocalStorage k v0"
  have n: "\<not> isHydrated (fst (hydrate js (?h, w)))"
    by (simp add: hydrate_hook) (simp add: useLocalStorage_def)
  have "run js [Tick] (?h, w) = run_effects js (?h, w)"
    by (simp add: run_def tick_def useLocalStorage_def)
  also have "\<dots> = ((fst (hydrate js (?h, w)))\<lparr>hydrateScheduled := False, persistScheduled := False\<rparr>,
                    snd (hydrate js (?h, w)))"
    using persist_not_hydrated [OF n, of js]
    by (simp add: run_effects_def Let_def split_beta) (simp add: useLocalStorage_def)
  finally show ?thesis
    by (simp add: fst_hydrate) (simp add: useLocalStorage_def)
qed

lemma mount_render:
  "run js [Tick, Tick] (useLocalStorage k v0, w) =
     ((useLocalStorage k v0)
        \<lparr>value := hydrated_value js k v0 w, isHydrated := True,
         hydrateScheduled := False, persistScheduled := True\<rparr>,
      snd (hydrate js (useLocalStorage k v0, w)))"
proof -
  have "run js [Tick, Tick] (useLocalStorage k v0, w) =
          run js [Tick] (run js [Tick] (useLocalStorage k v0, w))"
    by (simp add: run_def)
  then show ?thesis
    unfolding mount_effects
    by (simp add: run_def tick_def render_def Let_def hydrated_value_def)
       (simp add: useLocalStorage_def)
qed

lemma hydrate_warnings:
  "window w \<Longrightarrow>
   warnings (snd (hydrate js (h, w))) =
     warnings w @
       (case getItem w (key h) of
          Inl e \<Rightarrow> [(read_warning (key h), e)]
        | Inr None \<Rightarrow> []
        | Inr (Some t) \<Rightarrow>
            if t = [] then []
            else (case parse js t of Inl e \<Rightarrow> [(read_warning (key h), e)] | Inr v \<Rightarrow> []))"
  by (simp add: hydrate_def Let_def warn_def split: sum.splits option.splits prod.splits)

lemma mount_persist:
  assumes "window w" and "stringify js (hydrated_value js k v0 w) = Inr str"
  shows "setItem_calls (snd (run js [Tick, Tick, Tick] (useLocalStorage k v0, w))) =
           setItem_calls w @ [(k, str)]"
    and "\<not> setItem_throws w \<Longrightarrow>
           items (snd (run js [Tick, Tick, Tick] (useLocalStorage k v0, w))) k = Some str"
proof -
  let ?w1 = "snd (hydrate js (useLocalStorage k v0, w))"
  have r: "run js [Tick, Tick, Tick] (useLocalStorage k v0, w) =
             run js [Tick] (run js [Tick, Tick] (useLocalStorage k v0, w))"
    by (simp add: run_def)
  have w1: "window ?w1" "setItem_calls ?w1 = setItem_calls w"
    "setItem_throws ?w1 = setItem_throws w"
    using assms(1) by (simp_all add: hydrate_world)
  show "setItem_calls (snd (run js [Tick, Tick, Tick] (useLocalStorage k v0, w))) =
           setItem_calls w @ [(k, str)]"
    unfolding r mount_render using assms(2) w1
    by (simp add: run_def tick_def run_effects_def persist_def Let_def setItem_def
        called_setItem_def warn_def useLocalStorage_def)
  show "items (snd (run js [Tick, Tick, Tick] (useLocalStorage k v0, w))) k = Some str"
    if "\<not> setItem_throws w"
    unfolding r mount_render using assms(2) w1 that
    by (simp add: run_def tick_def run_effects_def persist_def Let_def setItem_def
        called_setItem_def warn_def useLocalStorage_def)
qed

text \<open>What a run leaves as it is, and the render of a hydrated store with what follows it.\<close>

lemma persist_frame:
  "window (snd (persist js s)) = window (snd s)"
  "setItem_throws (snd (persist js s)) = setItem_throws (snd s)"
  by (cases s; simp add: persist_def Let_def setItem_def called_setItem_def warn_def
      split: sum.splits)+

lemma run_effects_frame:
  "window (snd (run_effects js s)) = window (snd s)"
  "setItem_throws (snd (run_effects js s)) = setItem_throws (snd s)"
  by (cases s; simp add: run_effects_def Let_def split_beta persist_frame hydrate_world)+

lemma step_frame:
  "key (fst (step js s e)) = key (fst s)"
  "window (snd (step js s e)) = window (snd s)"
  "setItem_throws (snd (step js s e)) = setItem_throws (snd s)"
  by (cases s; cases e;
      simp add: tick_def setValue_def render_def Let_def run_effects_hook run_effects_frame)+

lemma run_frame:
  "key (fst (run js evs s)) = key (fst s)"
  "window (snd (run js evs s)) = window (snd s)"
  "setItem_throws (snd (run js evs s)) = setItem_throws (snd s)"
  unfolding run_def
  by (induction evs arbitrary: s; simp add: step_frame)+

lemma foldl_all_True: "\<forall>b \<in> set bs. b \<Longrightarrow> a \<Longrightarrow> foldl (\<lambda>_ x. x) a bs"
  by (induction bs arbitrary: a) auto

lemma run_hydratedQueue:
  "\<forall>b \<in> set (hydratedQueue (fst (run js evs (useLocalStorage k v0, w0)))). b"
proof -
  have "unwritten (setItem_calls w0) (items w0) (useLocalStorage k v0, w0)"
    by (simp add: unwritten_def useLocalStorage_def)
  from unwritten_run [OF this, of js evs]
  show ?thesis
    unfolding unwritten_def by blast
qed

lemma render_then_persist:
  assumes "run js evs (useLocalStorage k v0, w0) = (h, w)"
    and "window w0" and "isHydrated h"
    and "\<not> hydrateScheduled h" and "\<not> persistScheduled h"
    and "valueQueue h \<noteq> []"
  shows "get (fst (run js [Tick, Tick] (h, w))) = foldl reducer (value h) (valueQueue h) \<and>
         (\<not> object_is js (value h) (foldl reducer (value h) (valueQueue h)) \<longrightarrow>
            (\<forall>str. stringify js (foldl reducer (value h) (valueQueue h)) = Inr str \<longrightarrow>
               setItem_calls (snd (run js [Tick, Tick] (h, w))) = setItem_calls w @ [(k, str)] \<and>
               (\<not> setItem_throws w0 \<longrightarrow>
                  items (snd (run js [Tick, Tick] (h, w))) k = Some str))) \<and>
         (object_is js (value h) (foldl reducer (value h) (valueQueue h)) \<longrightarrow>
            snd (run js [Tick, Tick] (h, w)) = w)"
proof -
  let ?v = "foldl reducer (value h) (valueQueue h)"
  have fr: "key h = k" "window w" "setItem_throws w = setItem_throws w0"
    using run_frame [of js evs "(useLocalStorage k v0, w0)"] assms(1,2)
    by (simp_all add: useLocalStorage_def)
  have q: "\<forall>b \<in> set (hydratedQueue h). b"
    using run_hydratedQueue [of js evs k v0 w0] assms(1) by simp
  have b: "foldl (\<lambda>_ x. x) (isHydrated h) (hydratedQueue h)"
    using foldl_all_True [OF q assms(3)] .
  have r: "render js h =
      h\<lparr>value := ?v, isHydrated := True, valueQueue := [], hydratedQueue := [],
        hydrateScheduled := False, persistScheduled := \<not> object_is js (value h) ?v\<rparr>"
    using b assms(3,6) by (simp add: render_def Let_def)
  have t: "run js [Tick, Tick] (h, w) = tick js (render js h, w)"
    using assms(4-6) by (simp add: run_def tick_def)
  show ?thesis
  proof (cases "object_is js (value h) ?v")
    case True
    then show ?thesis
      unfolding t r by (simp add: tick_def get_def)
  next
    case False
    then show ?thesis
      unfolding t r using fr
      by (auto simp add: tick_def get_def run_effects_def persist_def setItem_def
          called_setItem_def warn_def split: sum.splits)
  qed
qed

section \<open>\<open>findIndex\<close> and \<open>arrayMove\<close>\<close>

lemma findIndexFrom_ge:
  "0 \<le> b \<Longrightarrow> findIndexFrom b p xs = -1 \<or> b \<le> findIndexFrom b p xs"
proof (induction xs arbitrary: b)
  case Nil
  then show ?case by simp
next
  case (Cons x xs)
  from Cons.IH [of "b + 1"] Cons.prems show ?case by auto
qed

lemma findIndexFrom_shift:
  "0 \<le> b \<Longrightarrow>
   findIndexFrom b p xs = (if findIndexFrom 0 p xs = -1 then -1 else b + findIndexFrom 0 p xs)"
proof (induction xs arbitrary: b)
  case Nil
  then show ?case by simp
next
  case (Cons x xs)
  have g: "findIndexFrom 0 p xs = -1 \<or> 0 \<le> findIndexFrom 0 p xs"
    using findIndexFrom_ge [of 0 p xs] by simp
  show ?case
    using Cons.IH [of "b + 1"] Cons.IH [of 1] Cons.prems g
    by (auto split: if_splits)
qed

lemma findIndex_found:
  "findIndex p xs = int i \<longleftrightarrow> i < length xs \<and> p (xs ! i) \<and> (\<forall>m < i. \<not> p (xs ! m))"
proof (induction xs arbitrary: i)
  case Nil
  then show ?case by (simp add: findIndex_def)
next
  case (Cons x xs)
  show ?case
  proof (cases "p x")
    case True
    then show ?thesis by (auto simp add: findIndex_def)
  next
    case False
    show ?thesis
    proof (cases i)
      case 0
      with False show ?thesis
        using findIndexFrom_shift [of 1 p xs] by (auto simp add: findIndex_def split: if_splits)
    next
      case (Suc n)
      have "findIndex p (x # xs) = int (Suc n) \<longleftrightarrow> findIndex p xs = int n"
        using False findIndexFrom_shift [of 1 p xs]
        by (auto simp add: findIndex_def split: if_splits)
      also have "\<dots> \<longleftrightarrow> n < length xs \<and> p (xs ! n) \<and> (\<forall>m < n. \<not> p (xs ! m))"
        by (rule Cons.IH)
      also have "\<dots> \<longleftrightarrow> Suc n < length (x # xs) \<and> p ((x # xs) ! Suc n) \<and> (\<forall>m < Suc n. \<not> p ((x # xs) ! m))"
        using False by (auto simp add: less_Suc_eq_0_disj)
      finally show ?thesis using Suc by simp
    qed
  qed
qed

lemma splice_remove:
  "i < length xs \<Longrightarrow> splice xs (int i) 1 [] = ([xs ! i], take i xs @ drop (Suc i) xs)"
proof -
  assume i: "i < length xs"
  then have d: "drop i xs = xs ! i # drop (Suc i) xs"
    by (simp add: Cons_nth_drop_Suc)
  have m: "min (int i) (int (length xs)) = int i"
    using i by simp
  have n: "min (Suc 0) (length xs - i) = Suc 0"
    using i by simp
  show ?thesis
    unfolding splice_def Let_def by (simp add: m n d)
qed

lemma splice_insert:
  "j \<le> length zs \<Longrightarrow> splice zs (int j) 0 [x] = ([], take j zs @ [x] @ drop j zs)"
proof -
  assume j: "j \<le> length zs"
  then have m: "min (int j) (int (length zs)) = int j"
    by simp
  show ?thesis
    unfolding splice_def Let_def by (simp add: m)
qed

lemma arrayMove_valid:
  assumes "i < length xs" and "j < length xs"
  shows "arrayMove xs (int i) (int j) =
           map Some (take j (take i xs @ drop (Suc i) xs) @ [xs ! i] @
                     drop j (take i xs @ drop (Suc i) xs))"
proof -
  let ?ys = "map Some xs"
  have r: "splice ?ys (int i) 1 [] = ([?ys ! i], take i ?ys @ drop (Suc i) ?ys)"
    using assms(1) by (intro splice_remove) simp
  have l: "j \<le> length (take i ?ys @ drop (Suc i) ?ys)"
    using assms by simp
  have "arrayMove xs (int i) (int j) =
          snd (splice (take i ?ys @ drop (Suc i) ?ys) (int j) 0 [?ys ! i])"
    unfolding arrayMove_def Let_def r by simp
  also have "\<dots> = take j (take i ?ys @ drop (Suc i) ?ys) @ [?ys ! i] @
                     drop j (take i ?ys @ drop (Suc i) ?ys)"
    unfolding splice_insert [OF l] by simp
  also have "\<dots> = map Some (take j (take i xs @ drop (Suc i) xs) @ [xs ! i] @
                     drop j (take i xs @ drop (Suc i) xs))"
    using assms(1) by (simp add: take_map drop_map)
  finally show ?thesis .
qed

lemma remove_nth:
  "i < length xs \<Longrightarrow> k < length xs - 1 \<Longrightarrow>
   (take i xs @ drop (Suc i) xs) ! k = (if k < i then xs ! k else xs ! Suc k)"
  by (simp add: nth_append min_absorb2)

lemma insert_nth:
  "j \<le> length zs \<Longrightarrow> k \<le> length zs \<Longrightarrow>
   (take j zs @ [x] @ drop j zs) ! k = (if k < j then zs ! k else if k = j then x else zs ! (k - 1))"
  by (auto simp add: nth_append min_absorb2 nth_Cons')

lemma relocated_closed:
  assumes "i < length xs" and "j < length xs" and "i \<noteq> j"
  shows "relocated xs i j (take j (take i xs @ drop (Suc i) xs) @ [xs ! i] @
                     drop j (take i xs @ drop (Suc i) xs))"
proof -
  let ?zs = "take i xs @ drop (Suc i) xs"
  have l: "length ?zs = length xs - 1"
    using assms(1) by simp
  have n: "(take j ?zs @ [xs ! i] @ drop j ?zs) ! k =
             (if k < j then ?zs ! k else if k = j then xs ! i else ?zs ! (k - 1))"
    if "k < length xs" for k
    using insert_nth [of j ?zs k "xs ! i"] assms that l by simp
  have z: "?zs ! k = (if k < i then xs ! k else xs ! Suc k)" if "k < length xs - 1" for k
    using remove_nth [OF assms(1) that] .
  show ?thesis
    unfolding relocated_def
  proof (intro conjI allI impI)
    show "length (take j ?zs @ [xs ! i] @ drop j ?zs) = length xs"
      using assms l by simp
    show "(take j ?zs @ [xs ! i] @ drop j ?zs) ! j = xs ! i"
      using n [of j] assms by simp
  next
    fix k assume k: "k < length xs" "k < min i j \<or> max i j < k"
    then show "(take j ?zs @ [xs ! i] @ drop j ?zs) ! k = xs ! k"
      using n [of k] z [of k] z [of "k - 1"] assms by (auto split: if_splits)
  next
    fix k assume k: "k < length xs" "i \<le> k \<and> k < j"
    then show "(take j ?zs @ [xs ! i] @ drop j ?zs) ! k = xs ! Suc k"
      using n [of k] z [of k] assms by (auto split: if_splits)
  next
    fix k assume k: "k < length xs" "j < k \<and> k \<le> i"
    then show "(take j ?zs @ [xs ! i] @ drop j ?zs) ! k = xs ! (k - 1)"
      using n [of k] z [of "k - 1"] assms by (auto split: if_splits)
  qed
qed

lemma findIndex_same:
  "findIndex (\<lambda>item. todo_id item = a) xs = int i \<Longrightarrow>
   findIndex (\<lambda>item. todo_id item = b) xs = int i \<Longrightarrow> a = b"
  by (auto simp add: findIndex_found)

lemma findIndex_range:
  "findIndex p xs = -1 \<or> (0 \<le> findIndex p xs \<and> findIndex p xs < int (length xs))"
proof (cases "findIndex p xs = -1")
  case True
  then show ?thesis by simp
next
  case False
  then have "0 \<le> findIndex p xs"
    using findIndexFrom_ge [of 0 p xs] by (simp add: findIndex_def)
  then obtain i where i: "findIndex p xs = int i"
    using nonneg_int_cases by blast
  then have "i < length xs"
    by (simp add: findIndex_found)
  with i show ?thesis by simp
qed

lemma splice_remove_last:
  assumes "xs \<noteq> []"
  shows "splice xs (- 1) 1 [] =
           ([xs ! (length xs - 1)], take (length xs - 1) xs @ drop (Suc (length xs - 1)) xs)"
proof -
  obtain n where n: "length xs = Suc n"
    using assms by (cases xs) auto
  have d: "drop n xs = xs ! n # drop (Suc n) xs"
    using n Cons_nth_drop_Suc [of n xs] by simp
  have s: "nat (max (int (length xs) - 1) 0) = n"
    using n by simp
  have m: "min (Suc 0) (length xs - n) = Suc 0"
    using n by simp
  have "splice xs (- 1) 1 [] = (take 1 (drop n xs), take n xs @ drop (n + 1) xs)"
    by (simp add: splice_def Let_def s m)
  then show ?thesis
    using n d by simp
qed

lemma splice_remove_any:
  assumes "xs \<noteq> []" and "- 1 \<le> from" and "from < int (length xs)"
  shows "\<exists>s < length xs. splice xs from 1 [] = ([xs ! s], take s xs @ drop (Suc s) xs)"
proof (cases "from < 0")
  case True
  then have f: "from = - 1" using assms(2) by simp
  have l: "length xs - 1 < length xs" using assms(1) by simp
  show ?thesis
    using splice_remove_last [OF assms(1)] l unfolding f by blast
next
  case False
  then obtain i where i: "from = int i"
    using nonneg_int_cases [of "from"] by auto
  with assms(3) have "i < length xs" by simp
  with splice_remove [of i xs] i show ?thesis by auto
qed

lemma splice_insert_clamped:
  "splice zs to 0 [x] =
     ([], take (nat (if to < 0 then max (int (length zs) + to) 0 else min to (int (length zs)))) zs @
          [x] @
          drop (nat (if to < 0 then max (int (length zs) + to) 0 else min to (int (length zs)))) zs)"
  unfolding splice_def Let_def by simp

lemma mset_insert_at: "mset (take t zs @ [x] @ drop t zs) = add_mset x (mset zs)"
proof -
  have "mset (take t zs) + mset (drop t zs) = mset (take t zs @ drop t zs)"
    by (simp only: mset_append)
  also have "\<dots> = mset zs"
    by (simp only: append_take_drop_id)
  finally have u: "mset (take t zs) + mset (drop t zs) = mset zs" .
  show ?thesis
    using u by simp
qed

lemma mset_remove_at:
  "s < length xs \<Longrightarrow> add_mset (xs ! s) (mset (take s xs @ drop (Suc s) xs)) = mset xs"
proof -
  assume "s < length xs"
  then have "xs = take s xs @ xs ! s # drop (Suc s) xs"
    by (rule id_take_nth_drop)
  then have "mset xs = mset (take s xs @ xs ! s # drop (Suc s) xs)"
    by simp
  then show ?thesis
    by simp
qed

lemma arrayMove_permutes:
  assumes "xs \<noteq> []" and "- 1 \<le> from" and "from < int (length xs)"
  shows "\<exists>ys. arrayMove xs from to = map Some ys \<and> mset ys = mset xs"
proof -
  let ?ys = "map Some xs"
  have "?ys \<noteq> []" "from < int (length ?ys)"
    using assms by simp_all
  from splice_remove_any [OF this(1) assms(2) this(2)]
  obtain s where s: "s < length xs"
    "splice ?ys from 1 [] = ([?ys ! s], take s ?ys @ drop (Suc s) ?ys)"
    by auto
  let ?zs = "take s xs @ drop (Suc s) xs"
  let ?target = "if to < 0 then int (length ?ys) + to else to"
  define t where
    "t = nat (if ?target < 0 then max (int (length (map Some ?zs)) + ?target) 0
              else min ?target (int (length (map Some ?zs))))"
  have z: "take s ?ys @ drop (Suc s) ?ys = map Some ?zs"
    by (simp add: take_map drop_map)
  have i: "splice (map Some ?zs) ?target 0 [?ys ! s] =
             ([], take t (map Some ?zs) @ [?ys ! s] @ drop t (map Some ?zs))"
    unfolding t_def by (rule splice_insert_clamped)
  have "arrayMove xs from to = snd (splice (map Some ?zs) ?target 0 [?ys ! s])"
    unfolding arrayMove_def Let_def s(2) z by simp
  also have "\<dots> = take t (map Some ?zs) @ [?ys ! s] @ drop t (map Some ?zs)"
    unfolding i by simp
  also have "\<dots> = map Some (take t ?zs @ [xs ! s] @ drop t ?zs)"
    using s(1) by (simp add: take_map drop_map)
  finally have a: "arrayMove xs from to = map Some (take t ?zs @ [xs ! s] @ drop t ?zs)" .
  have "mset (take t ?zs @ [xs ! s] @ drop t ?zs) = add_mset (xs ! s) (mset ?zs)"
    by (rule mset_insert_at)
  also have "\<dots> = mset xs"
    using s(1) by (rule mset_remove_at)
  finally show ?thesis
    using a by blast
qed

lemma splice_Nil: "splice [] start d ins = ([], ins)"
  unfolding splice_def Let_def by simp

lemma arrayMove_empty: "arrayMove [] from to = [None]"
  unfolding arrayMove_def Let_def by (simp add: splice_Nil)

lemma moveItems_distinct:
  assumes "distinct (map todo_id xs)"
  shows "distinct (map todo_id (map the (moveItems a b xs)))"
proof (cases "xs = []")
  case True
  then show ?thesis
    by (simp add: moveItems_def Let_def findIndex_def arrayMove_empty)
next
  case False
  let ?from = "findIndex (\<lambda>item. todo_id item = a) xs"
  let ?to = "findIndex (\<lambda>item. todo_id item = b) xs"
  have "- 1 \<le> ?from" "?from < int (length xs)"
    using findIndex_range [of "\<lambda>item. todo_id item = a" xs] False by auto
  from arrayMove_permutes [OF False this, of ?to]
  obtain ys where ys: "arrayMove xs ?from ?to = map Some ys" "mset ys = mset xs"
    by blast
  have "map the (moveItems a b xs) = ys"
    using ys(1) by (simp add: moveItems_def Let_def comp_def)
  moreover have "mset (map todo_id ys) = mset (map todo_id xs)"
    by (simp add: ys(2))
  then have "distinct (map todo_id ys) = distinct (map todo_id xs)"
    by (rule mset_eq_imp_distinct_iff)
  ultimately show ?thesis
    using assms by simp
qed

text \<open>On a list that is not empty \<open>arrayMove\<close> inserts no \<open>undefined\<close>.\<close>

lemma moveItems_defined: "xs \<noteq> [] \<Longrightarrow> None \<notin> set (moveItems a b xs)"
proof -
  assume ne: "xs \<noteq> []"
  let ?from = "findIndex (\<lambda>item. todo_id item = a) xs"
  let ?to = "findIndex (\<lambda>item. todo_id item = b) xs"
  have "- 1 \<le> ?from" "?from < int (length xs)"
    using findIndex_range [of "\<lambda>item. todo_id item = a" xs] ne by auto
  from arrayMove_permutes [OF ne this, of ?to]
  obtain ys where "arrayMove xs ?from ?to = map Some ys"
    by blast
  then show ?thesis
    by (auto simp add: moveItems_def Let_def)
qed

section \<open>The handlers of \<open>TodoList\<close>\<close>

lemma toggle_twice:
  "map (\<lambda>todo. if todo_id todo = i then todo\<lparr>completed := \<not> completed todo\<rparr> else todo)
     (map (\<lambda>todo. if todo_id todo = i then todo\<lparr>completed := \<not> completed todo\<rparr> else todo) xs) = xs"
  by (induction xs) auto

lemma toggle_absent:
  "i \<notin> set (map todo_id xs) \<Longrightarrow>
   map (\<lambda>todo. if todo_id todo = i then todo\<lparr>completed := \<not> completed todo\<rparr> else todo) xs = xs"
  by (induction xs) auto

lemma handle_fresh_queue:
  "valueQueue h = [] \<Longrightarrow> get (render js (handle e h)) = applied e (get h)"
proof (cases e)
  case (AddTodo u n t)
  assume "valueQueue h = []"
  then show ?thesis
    using AddTodo by (simp add: addTodo_def get_render setValue_def Let_def) (simp add: get_def)
next
  case (ToggleTodo i)
  then show ?thesis
    by (simp add: toggleTodo_def get_render setValue_def) (simp add: get_def)
next
  case (DeleteTodo i)
  then show ?thesis
    by (simp add: deleteTodo_def get_render setValue_def) (simp add: get_def)
next
  case (DragEnd activeId over)
  assume "valueQueue h = []"
  then show ?thesis
    using DragEnd
    by (simp add: handleDragEnd_def get_render setValue_def split: option.splits)
       (simp add: get_def)
qed

lemma one_per_render_applied:
  "valueQueue h = [] \<Longrightarrow> get (one_per_render js es h) = apply_all es (get h)"
proof (induction es arbitrary: h)
  case Nil
  then show ?case by simp
next
  case (Cons e es)
  have "get (one_per_render js (e # es) h) = apply_all es (get (render js (handle e h)))"
    using Cons.IH [of "render js (handle e h)"] by (simp add: render_queue_empty)
  then show ?case
    using handle_fresh_queue [OF Cons.prems] by simp
qed

section \<open>Distinct ids\<close>

lemma run_effects_valueQueue:
  "valueQueue (fst (run_effects js (h, w))) =
     valueQueue h @ (if hydrateScheduled h then loaded js h w else [])"
  by (simp add: run_effects_def Let_def split_beta fst_persist fst_hydrate)

lemma foldl_keeps_distinct:
  "distinct (map todo_id v) \<Longrightarrow> \<forall>a \<in> set q. keeps_distinct a \<Longrightarrow>
   distinct (map todo_id (foldl reducer v q))"
proof (induction q arbitrary: v)
  case Nil
  then show ?case by simp
next
  case (Cons a q)
  have "distinct (map todo_id (reducer v a))"
    using Cons.prems by (cases a) (auto simp add: keeps_distinct_def)
  then show ?case
    using Cons.IH [of "reducer v a"] Cons.prems by simp
qed

lemma toggle_ids:
  "map todo_id (map (\<lambda>todo. if todo_id todo = i then todo\<lparr>completed := \<not> completed todo\<rparr> else todo) xs) =
   map todo_id xs"
  by (induction xs) auto

lemma handle_hook:
  "value (handle e h) = value h"
  "initialValue (handle e h) = initialValue h"
  "hydrateScheduled (handle e h) = hydrateScheduled h"
  "key (handle e h) = key h"
  by (cases e; simp add: addTodo_def toggleTodo_def deleteTodo_def handleDragEnd_def
      setValue_def Let_def split: option.splits)+

lemma handle_keeps_distinct:
  assumes "distinct (map todo_id (value h))"
    and "\<forall>a \<in> set (valueQueue h). keeps_distinct a"
    and "case e of AddTodo uuid now entered \<Rightarrow> uuid \<notin> set (map todo_id (value h)) | _ \<Rightarrow> True"
  shows "\<forall>a \<in> set (valueQueue (handle e h)). keeps_distinct a"
proof (cases e)
  case (AddTodo u n t)
  then show ?thesis
    using assms by (auto simp add: addTodo_def setValue_def Let_def keeps_distinct_def)
next
  case (ToggleTodo i)
  then show ?thesis
    using assms(1,2) toggle_ids [of i "value h"]
    by (auto simp add: toggleTodo_def setValue_def keeps_distinct_def simp del: map_map)
next
  case (DeleteTodo i)
  then show ?thesis
    using assms(1,2)
    by (auto simp add: deleteTodo_def setValue_def keeps_distinct_def distinct_map_filter)
next
  case (DragEnd a over)
  then show ?thesis
    using assms(2) moveItems_distinct
    by (auto simp add: handleDragEnd_def setValue_def keeps_distinct_def split: option.splits)
qed

lemma loaded_keeps_distinct:
  assumes "distinct (map todo_id (initialValue h))"
    and "\<forall>t v. items w (key h) = Some t \<and> parse js t = Inr v \<longrightarrow> distinct (map todo_id v)"
  shows "\<forall>a \<in> set (loaded js h w). keeps_distinct a"
proof (cases "window w \<and> \<not> getItem_throws w")
  case False
  then have "loaded js h w = []"
    by (cases "window w") (simp_all add: loaded_def getItem_def)
  then show ?thesis
    by simp
next
  case True
  show ?thesis
  proof (cases "items w (key h)")
    case None
    then show ?thesis
      using True assms(1) by (simp add: loaded_def getItem_def keeps_distinct_def)
  next
    case (Some t)
    show ?thesis
    proof (cases "parse js t")
      case (Inl e)
      then show ?thesis
        using True Some assms(1) by (simp add: loaded_def getItem_def keeps_distinct_def)
    next
      case (Inr v)
      then have "distinct (map todo_id v)"
        using assms(2) Some by blast
      then show ?thesis
        using True Some Inr assms(1) by (simp add: loaded_def getItem_def keeps_distinct_def)
    qed
  qed
qed

lemma ids_invariant_step:
  assumes inv: "ids_invariant saved s"
    and payload: "\<forall>t v. saved = Some t \<and> parse js t = Inr v \<longrightarrow> distinct (map todo_id v)"
    and fresh: "case ev of Do (AddTodo uuid now entered) \<Rightarrow> uuid \<notin> set (map todo_id (value (fst s)))
                | _ \<Rightarrow> True"
  shows "ids_invariant saved (app_step js s ev)"
proof (cases s)
  case (Pair h w)
  have i: "distinct (map todo_id (value h))" "distinct (map todo_id (initialValue h))"
    "\<forall>a \<in> set (valueQueue h). keeps_distinct a"
    "hydrateScheduled h \<Longrightarrow> items w (key h) = saved"
    using inv Pair by (auto simp add: ids_invariant_def)
  show ?thesis
  proof (cases ev)
    case (Do e)
    have "case e of AddTodo uuid now entered \<Rightarrow> uuid \<notin> set (map todo_id (value h)) | _ \<Rightarrow> True"
      using fresh Do Pair by (cases e) simp_all
    from handle_keeps_distinct [OF i(1) i(3) this]
    show ?thesis
      using i Do Pair by (simp add: ids_invariant_def handle_hook)
  next
    case Turn
    consider (eff) "hydrateScheduled h \<or> persistScheduled h"
      | (ren) "\<not> (hydrateScheduled h \<or> persistScheduled h)"
              "valueQueue h \<noteq> [] \<or> hydratedQueue h \<noteq> []"
      | (idle) "\<not> (hydrateScheduled h \<or> persistScheduled h)"
               "\<not> (valueQueue h \<noteq> [] \<or> hydratedQueue h \<noteq> [])"
      by blast
    then show ?thesis
    proof cases
      case eff
      then have t: "app_step js s ev = run_effects js (h, w)"
        using Turn Pair by (simp add: tick_def)
      have l: "\<forall>a \<in> set (loaded js h w). keeps_distinct a" if "hydrateScheduled h"
        using loaded_keeps_distinct [OF i(2), of w js] payload i(4) [OF that] by simp
      show ?thesis
        unfolding t ids_invariant_def
        using i(1-3) l
        by (auto simp add: run_effects_hook run_effects_valueQueue)
    next
      case ren
      then have t: "app_step js s ev = (render js h, w)"
        using Turn Pair by (simp add: tick_def)
      have "distinct (map todo_id (value (render js h)))"
        using foldl_keeps_distinct [OF i(1) i(3)] by (simp add: render_def Let_def)
      then show ?thesis
        unfolding t ids_invariant_def using i(2)
        by (simp add: render_def Let_def)
    next
      case idle
      then have "app_step js s ev = s"
        using Turn Pair by (simp add: tick_def)
      with inv show ?thesis by simp
    qed
  qed
qed

lemma ids_invariant_run:
  assumes "\<forall>t v. saved = Some t \<and> parse js t = Inr v \<longrightarrow> distinct (map todo_id v)"
  shows "ids_invariant saved s \<Longrightarrow> fresh_ids js s evs \<Longrightarrow>
         ids_invariant saved (app_run js evs s)"
proof (induction evs arbitrary: s)
  case Nil
  then show ?case by (simp add: app_run_def)
next
  case (Cons ev evs)
  have "ids_invariant saved (app_step js s ev)"
    using ids_invariant_step [OF Cons.prems(1) assms] Cons.prems(2) by simp
  from Cons.IH [OF this] Cons.prems(2)
  show ?case by (simp add: app_run_def)
qed

section \<open>Parsing what was serialized\<close>

lemma hexValue_hexDigit: "k < 16 \<Longrightarrow> hexValue (hexDigit k) = Some k"
proof -
  assume "k < 16"
  then have "k \<in> {0, 1, 2, 3, 4, 5, 6, 7, 8, 9, 10, 11, 12, 13, 14, 15}"
    by simp arith
  then show ?thesis
    by (auto simp add: hexValue_def hexDigit_def Let_def)
qed

lemma unescape_control:
  assumes "(of_char c :: nat) < 32"
  shows "unescapeUnicode (CHR ''0'') (CHR ''0'') (hexDigit (of_char c div 16)) (hexDigit (of_char c)) = Some c"
proof -
  let ?n = "of_char c :: nat"
  have a: "hexValue (hexDigit (?n div 16)) = Some (?n div 16)"
    using assms by (intro hexValue_hexDigit) simp
  have b: "hexValue (hexDigit ?n) = Some (?n mod 16)"
    using hexValue_hexDigit [of "?n mod 16"] by (simp add: hexDigit_def)
  have z: "hexValue (CHR ''0'') = Some 0"
    by (simp add: hexValue_def)
  have "char_of (16 * (?n div 16) + ?n mod 16) = c"
    by simp
  then show ?thesis
    by (simp add: unescapeUnicode_def a b z)
qed

lemma parseChars_quoteChar: "parseChars (quoteChar c @ cs) = consChar (Some c) (parseChars cs)"
proof -
  consider (special) "c \<in> {CHR 0x22, CHR 0x5C, CHR 0x08, CHR 0x09, CHR 0x0A, CHR 0x0C, CHR 0x0D}"
    | (control) "c \<notin> {CHR 0x22, CHR 0x5C, CHR 0x08, CHR 0x09, CHR 0x0A, CHR 0x0C, CHR 0x0D}"
        "(of_char c :: nat) < 32"
    | (plain) "c \<notin> {CHR 0x22, CHR 0x5C, CHR 0x08, CHR 0x09, CHR 0x0A, CHR 0x0C, CHR 0x0D}"
        "\<not> (of_char c :: nat) < 32"
    by blast
  then show ?thesis
  proof cases
    case special
    then show ?thesis
      by (auto simp add: quoteChar_def unescapeSimple_def)
  next
    case control
    then have "quoteChar c = [CHR 0x5C, CHR ''u'', CHR ''0'', CHR ''0'',
        hexDigit (of_char c div 16), hexDigit (of_char c)]"
      by (simp add: quoteChar_def)
    then show ?thesis
      using unescape_control [OF control(2)] by simp
  next
    case plain
    then have "quoteChar c = [c]"
      by (simp add: quoteChar_def)
    then show ?thesis
      using plain by simp
  qed
qed

lemma parseChars_quoted:
  "parseChars (concat (map quoteChar s) @ CHR 0x22 # rest) = Some (s, rest)"
proof (induction s)
  case Nil
  then show ?case by simp
next
  case (Cons c s)
  have "parseChars (concat (map quoteChar (c # s)) @ CHR 0x22 # rest) =
          parseChars (quoteChar c @ (concat (map quoteChar s) @ CHR 0x22 # rest))"
    by simp
  also have "\<dots> = consChar (Some c) (parseChars (concat (map quoteChar s) @ CHR 0x22 # rest))"
    by (rule parseChars_quoteChar)
  also have "\<dots> = Some (c # s, rest)"
    unfolding Cons.IH by (simp add: consChar_def)
  finally show ?case .
qed

lemma skipWs_nonspace: "\<not> isJSONSpace c \<Longrightarrow> skipWs (c # cs) = c # cs"
  by (simp add: skipWs_def)

lemma parseValue_string:
  "parseValue (Suc n) (quoteJSONString s @ rest) = Some (JString s, rest)"
proof -
  have q: "quoteJSONString s @ rest = CHR 0x22 # (concat (map quoteChar s) @ CHR 0x22 # rest)"
    by (simp add: quoteJSONString_def)
  have w: "skipWs (CHR 0x22 # cs) = CHR 0x22 # cs" for cs
    by (rule skipWs_nonspace) (simp add: isJSONSpace_def)
  show ?thesis
    unfolding q by (simp add: w parseChars_quoted)
qed

lemma parseValue_bool:
  "parseValue (Suc n) ((if b then ''true'' else ''false'') @ rest) = Some (JBool b, rest)"
proof -
  have w: "skipWs (CHR ''t'' # cs) = CHR ''t'' # cs" "skipWs (CHR ''f'' # cs) = CHR ''f'' # cs" for cs
    by (rule skipWs_nonspace; simp add: isJSONSpace_def)+
  show ?thesis
    by (cases b) (simp_all add: w)
qed

lemma parseMembers_last:
  assumes "parseValue n (sv @ CHR ''}'' # rest) = Some (v, CHR ''}'' # rest)"
  shows "parseMembers (Suc n) (quoteJSONString k @ CHR '':'' # sv @ CHR ''}'' # rest) =
           Some ([(k, v)], rest)"
proof -
  have q: "quoteJSONString k @ CHR '':'' # sv @ CHR ''}'' # rest =
             CHR 0x22 # (concat (map quoteChar k) @ CHR 0x22 # CHR '':'' # sv @ CHR ''}'' # rest)"
    by (simp add: quoteJSONString_def)
  have w: "skipWs (CHR 0x22 # cs) = CHR 0x22 # cs" "skipWs (CHR '':'' # cs) = CHR '':'' # cs"
    "skipWs (CHR ''}'' # cs) = CHR ''}'' # cs" for cs
    by (rule skipWs_nonspace; simp add: isJSONSpace_def)+
  show ?thesis
    unfolding q by (simp add: w parseChars_quoted assms)
qed

lemma parseMembers_more:
  assumes "parseValue n (sv @ CHR '','' # cont) = Some (v, CHR '','' # cont)"
    and "parseMembers n cont = Some (ms, rest)"
  shows "parseMembers (Suc n) (quoteJSONString k @ CHR '':'' # sv @ CHR '','' # cont) =
           Some ((k, v) # ms, rest)"
proof -
  have q: "quoteJSONString k @ CHR '':'' # sv @ CHR '','' # cont =
             CHR 0x22 # (concat (map quoteChar k) @ CHR 0x22 # CHR '':'' # sv @ CHR '','' # cont)"
    by (simp add: quoteJSONString_def)
  have w: "skipWs (CHR 0x22 # cs) = CHR 0x22 # cs" "skipWs (CHR '':'' # cs) = CHR '':'' # cs"
    "skipWs (CHR '','' # cs) = CHR '','' # cs" for cs
    by (rule skipWs_nonspace; simp add: isJSONSpace_def)+
  show ?thesis
    unfolding q by (simp add: w parseChars_quoted assms)
qed

lemma serialize_todo: "serialize (todoToJSON t) @ rest = CHR ''{'' # todoMembers t rest"
  by (simp add: todoToJSON_def todoMembers_def)

lemma parseMembers_todo:
  "parseMembers (Suc (Suc (Suc (Suc (Suc n))))) (todoMembers t rest) =
     Some ([(''id'', JString (todo_id t)), (''text'', JString (text t)),
            (''completed'', JBool (completed t)),
            (''createdAt'', JString (timestampText (createdAt t)))], rest)"
  unfolding todoMembers_def
  apply (rule parseMembers_more)
   apply (rule parseValue_string)
  apply (rule parseMembers_more)
   apply (rule parseValue_string)
  apply (rule parseMembers_more)
   apply (rule parseValue_bool)
  apply (rule parseMembers_last)
  apply (rule parseValue_string)
  done

lemma skipWs_simple [simp]:
  "skipWs (CHR ''{'' # cs) = CHR ''{'' # cs"
  "skipWs (CHR ''['' # cs) = CHR ''['' # cs"
  "skipWs (CHR '']'' # cs) = CHR '']'' # cs"
  "skipWs (CHR '','' # cs) = CHR '','' # cs"
  "skipWs (CHR 0x22 # cs) = CHR 0x22 # cs"
  "skipWs [] = []"
  by (simp_all add: skipWs_def isJSONSpace_def)

lemma todoMembers_head: "\<exists>cs. todoMembers t rest = CHR 0x22 # cs"
  by (simp add: todoMembers_def quoteJSONString_def)

lemma parseValue_todo:
  "parseValue (Suc (Suc (Suc (Suc (Suc (Suc n)))))) (serialize (todoToJSON t) @ rest) =
     Some (todoToJSON t, rest)"
proof -
  obtain cs where h: "todoMembers t rest = CHR 0x22 # cs"
    using todoMembers_head by blast
  have "parseValue (Suc (Suc (Suc (Suc (Suc (Suc n)))))) (CHR ''{'' # todoMembers t rest) =
          map_option (\<lambda>(ms, rest). (JObject ms, rest))
            (parseMembers (Suc (Suc (Suc (Suc (Suc n))))) (todoMembers t rest))"
    by (simp add: h)
  then show ?thesis
    unfolding serialize_todo parseMembers_todo by (simp add: todoToJSON_def)
qed

lemma parseValue_todo_fuel:
  assumes "6 \<le> m"
  shows "parseValue m (serialize (todoToJSON t) @ rest) = Some (todoToJSON t, rest)"
proof -
  have "m = Suc (Suc (Suc (Suc (Suc (Suc (m - 6))))))"
    using assms by arith
  then show ?thesis
    using parseValue_todo [of "m - 6" t rest] by simp
qed

lemma parseElements_todos:
  "ts \<noteq> [] \<Longrightarrow> length ts + 6 \<le> m \<Longrightarrow>
   parseElements m (commaSep (map (\<lambda>t. serialize (todoToJSON t)) ts) @ CHR '']'' # rest) =
     Some (map todoToJSON ts, rest)"
proof (induction ts arbitrary: m)
  case Nil
  then show ?case by simp
next
  case (Cons t ts)
  obtain k where m: "m = Suc k" and k: "6 \<le> k" "length ts + 6 \<le> k"
    using Cons.prems(2) by (cases m) auto
  show ?case
  proof (cases ts)
    case Nil
    have "parseValue k (serialize (todoToJSON t) @ CHR '']'' # rest) =
            Some (todoToJSON t, CHR '']'' # rest)"
      using k(1) by (rule parseValue_todo_fuel)
    then show ?thesis
      unfolding m using Nil by simp
  next
    case (Cons u us)
    have v: "parseValue k (serialize (todoToJSON t) @
               CHR '','' # commaSep (map (\<lambda>t. serialize (todoToJSON t)) ts) @ CHR '']'' # rest) =
            Some (todoToJSON t, CHR '','' # commaSep (map (\<lambda>t. serialize (todoToJSON t)) ts) @
               CHR '']'' # rest)"
      using k(1) by (rule parseValue_todo_fuel)
    have e: "parseElements k (commaSep (map (\<lambda>t. serialize (todoToJSON t)) ts) @ CHR '']'' # rest) =
               Some (map todoToJSON ts, rest)"
      using Cons k(2) by (intro Cons.IH) simp_all
    have c: "commaSep (map (\<lambda>t. serialize (todoToJSON t)) (t # ts)) @ CHR '']'' # rest =
               serialize (todoToJSON t) @
               CHR '','' # commaSep (map (\<lambda>t. serialize (todoToJSON t)) ts) @ CHR '']'' # rest"
      using Cons by simp
    show ?thesis
      unfolding m c by (simp add: v e)
  qed
qed

lemma length_serialize_todo: "6 \<le> length (serialize (todoToJSON t))"
  by (simp add: todoToJSON_def quoteJSONString_def)

lemma length_commaSep:
  "\<forall>x \<in> set xs. k \<le> length x \<Longrightarrow> k * length xs \<le> length (commaSep xs)"
  by (induction xs rule: commaSep.induct) auto

lemma serialize_todos_head:
  "ts \<noteq> [] \<Longrightarrow> \<exists>cs. commaSep (map (\<lambda>t. serialize (todoToJSON t)) ts) @ rest = CHR ''{'' # cs"
proof (cases ts)
  case Nil
  assume "ts \<noteq> []"
  with Nil show ?thesis by simp
next
  case (Cons t us)
  then show ?thesis
    by (cases us) (simp_all add: todoToJSON_def)
qed

lemma parseValue_todos:
  assumes "ts \<noteq> [] \<Longrightarrow> length ts + 6 \<le> m"
  shows "parseValue (Suc m) (serialize (JArray (map todoToJSON ts)) @ rest) =
           Some (JArray (map todoToJSON ts), rest)"
proof (cases "ts = []")
  case True
  then show ?thesis by simp
next
  case False
  let ?body = "commaSep (map (\<lambda>t. serialize (todoToJSON t)) ts)"
  have s: "serialize (JArray (map todoToJSON ts)) @ rest = CHR ''['' # ?body @ CHR '']'' # rest"
    by (simp add: comp_def)
  obtain cs where h: "?body @ CHR '']'' # rest = CHR ''{'' # cs"
    using serialize_todos_head [OF False] by blast
  have "parseValue (Suc m) (CHR ''['' # ?body @ CHR '']'' # rest) =
          map_option (\<lambda>(vs, rest). (JArray vs, rest)) (parseElements m (?body @ CHR '']'' # rest))"
    by (simp add: h)
  also have "\<dots> = Some (JArray (map todoToJSON ts), rest)"
    using parseElements_todos [OF False assms [OF False]] by simp
  finally show ?thesis
    unfolding s .
qed

lemma JSON_parse_todos:
  "JSON_parse (serialize (JArray (map todoToJSON ts))) = Inr (JArray (map todoToJSON ts))"
proof -
  let ?s = "serialize (JArray (map todoToJSON ts))"
  have "6 * length ts \<le> length (commaSep (map (\<lambda>t. serialize (todoToJSON t)) ts))"
    using length_commaSep [of "map (\<lambda>t. serialize (todoToJSON t)) ts" 6]
    by (simp add: length_serialize_todo)
  moreover have "length ?s = length (commaSep (map (\<lambda>t. serialize (todoToJSON t)) ts)) + 2"
    by (simp add: comp_def)
  ultimately have "length ts + 6 \<le> 2 * length ?s + 1" if "ts \<noteq> []"
    using that by (cases ts) simp_all
  from parseValue_todos [OF this, of "[]"]
  have "parseValue (2 * length ?s + 2) ?s = Some (JArray (map todoToJSON ts), [])"
    by simp
  then show ?thesis
    unfolding JSON_parse_def by simp
qed

lemma todoFromJSON_todoToJSON: "todoFromJSON (todoToJSON t) = Some (reloaded t)"
  by (simp add: todoFromJSON_def todoToJSON_def reloaded_def)

lemma allSome_map_Some: "allSome (map Some xs) = Some xs"
  by (induction xs) simp_all

lemma todosFromJSON_todoToJSON:
  "todosFromJSON (JArray (map todoToJSON ts)) = Some (map reloaded ts)"
proof -
  have "map todoFromJSON (map todoToJSON ts) = map Some (map reloaded ts)"
    by (simp add: todoFromJSON_todoToJSON)
  then show ?thesis
    by (simp add: todosFromJSON_def allSome_map_Some del: map_map)
qed

lemma parse_serialized_todos:
  "parse todos_js (serialize (JArray (map todoToJSON ts))) = Inr (map reloaded ts)"
proof -
  have "parse todos_js (serialize (JArray (map todoToJSON ts))) =
          (case JSON_parse (serialize (JArray (map todoToJSON ts))) of
             Inl e \<Rightarrow> Inl e
           | Inr j \<Rightarrow> (case todosFromJSON j of None \<Rightarrow> Inl TypeError | Some ts \<Rightarrow> Inr ts))"
    by (simp add: todos_js_def del: serialize.simps)
  also have "\<dots> = (case todosFromJSON (JArray (map todoToJSON ts)) of
                        None \<Rightarrow> Inl TypeError | Some ts \<Rightarrow> Inr ts)"
    by (simp only: JSON_parse_todos sum.case)
  also have "\<dots> = Inr (map reloaded ts)"
    by (simp only: todosFromJSON_todoToJSON option.case)
  finally show ?thesis .
qed

text \<open>A list the component stored with distinct ids is read back with distinct ids.\<close>

lemma stored_payload_distinct:
  assumes "distinct (map todo_id ts)"
  shows "\<forall>t v. items (stored_browser ts) ''todos'' = Some t \<and> parse todos_js t = Inr v \<longrightarrow>
           distinct (map todo_id v)"
proof (intro allI impI)
  fix t v
  assume a: "items (stored_browser ts) ''todos'' = Some t \<and> parse todos_js t = Inr v"
  then have "t = serialize (JArray (map todoToJSON ts))"
    by (simp add: stored_browser_def del: serialize.simps)
  with a have "v = map reloaded ts"
    using parse_serialized_todos [of ts] by simp
  then show "distinct (map todo_id v)"
    using assms by (simp add: reloaded_def comp_def)
qed

section \<open>Hydration\<close>

text \<open>
  C10. On the hydration read (the first effect and the render after it, in a browser): a
  stored empty string leaves the value at the initial value and logs no warning; a stored
  non-empty string that parses becomes the value as parsed, whatever it is; and a warning
  is logged exactly when \<open>getItem\<close> throws or the parse of a non-empty stored string throws.
\<close>

theorem hydration_read:
  "window w \<Longrightarrow>
   (let s = run js [Tick, Tick] (useLocalStorage k v0, w) in
      (\<not> getItem_throws w \<and> items w k = Some [] \<longrightarrow>
         get (fst s) = v0 \<and> warnings (snd s) = warnings w) \<and>
      (\<forall>t v. \<not> getItem_throws w \<and> items w k = Some t \<and> t \<noteq> [] \<and> parse js t = Inr v \<longrightarrow>
         get (fst s) = v \<and> warnings (snd s) = warnings w) \<and>
      (warnings (snd s) \<noteq> warnings w \<longleftrightarrow>
         getItem_throws w \<or> (\<exists>t. items w k = Some t \<and> t \<noteq> [] \<and> isl (parse js t))))"
  unfolding mount_render Let_def
  by (auto simp add: get_def hydrated_value_def loaded_def hydrate_warnings getItem_def
      useLocalStorage_def isl_def split: sum.splits option.splits)

theorem hydration_read_witness:
  "(window saved_browser \<and> \<not> getItem_throws saved_browser \<and>
    items saved_browser ''test-key'' = Some (quoteJSONString ''saved-value'') \<and>
    quoteJSONString ''saved-value'' \<noteq> [] \<and>
    parse string_js (quoteJSONString ''saved-value'') = Inr ''saved-value'' \<and>
    get (fst (run string_js [Tick, Tick] (useLocalStorage ''test-key'' ''initial'', saved_browser))) =
      ''saved-value'' \<and>
    warnings (snd (run string_js [Tick, Tick] (useLocalStorage ''test-key'' ''initial'', saved_browser))) =
      []) \<and>
   (window (browser\<lparr>items := [''test-key'' \<mapsto> []]\<rparr>) \<and>
    \<not> getItem_throws (browser\<lparr>items := [''test-key'' \<mapsto> []]\<rparr>) \<and>
    items (browser\<lparr>items := [''test-key'' \<mapsto> []]\<rparr>) ''test-key'' = Some [] \<and>
    get (fst (run string_js [Tick, Tick]
      (useLocalStorage ''test-key'' ''initial'', browser\<lparr>items := [''test-key'' \<mapsto> []]\<rparr>))) =
      ''initial'' \<and>
    warnings (snd (run string_js [Tick, Tick]
      (useLocalStorage ''test-key'' ''initial'', browser\<lparr>items := [''test-key'' \<mapsto> []]\<rparr>))) =
      []) \<and>
   (window (browser\<lparr>getItem_throws := True\<rparr>) \<and> getItem_throws (browser\<lparr>getItem_throws := True\<rparr>) \<and>
    warnings (snd (run string_js [Tick, Tick]
      (useLocalStorage ''test-key'' ''initial'', browser\<lparr>getItem_throws := True\<rparr>))) \<noteq>
      warnings (browser\<lparr>getItem_throws := True\<rparr>))"
proof -
  have p: "window saved_browser \<and> \<not> getItem_throws saved_browser \<and>
      items saved_browser ''test-key'' = Some (quoteJSONString ''saved-value'') \<and>
      quoteJSONString ''saved-value'' \<noteq> [] \<and>
      parse string_js (quoteJSONString ''saved-value'') = Inr ''saved-value'' \<and>
      warnings saved_browser = []"
    by code_simp
  have q: "window (browser\<lparr>items := [''test-key'' \<mapsto> []]\<rparr>) \<and>
      \<not> getItem_throws (browser\<lparr>items := [''test-key'' \<mapsto> []]\<rparr>) \<and>
      items (browser\<lparr>items := [''test-key'' \<mapsto> []]\<rparr>) ''test-key'' = Some [] \<and>
      warnings (browser\<lparr>items := [''test-key'' \<mapsto> []]\<rparr>) = []"
    by (simp add: browser_def)
  have r: "window (browser\<lparr>getItem_throws := True\<rparr>) \<and>
      getItem_throws (browser\<lparr>getItem_throws := True\<rparr>)"
    by (simp add: browser_def)
  from p have w1: "window saved_browser" by simp
  from q have w2: "window (browser\<lparr>items := [''test-key'' \<mapsto> []]\<rparr>)" by simp
  from r have w3: "window (browser\<lparr>getItem_throws := True\<rparr>)" by simp
  from hydration_read [OF w1, of string_js "''test-key''" "''initial''"]
    hydration_read [OF w2, of string_js "''test-key''" "''initial''"]
    hydration_read [OF w3, of string_js "''test-key''" "''initial''"] p q r
  show ?thesis
    by (simp add: Let_def)
qed

text \<open>
  C1. A fresh handle returns the initial value before the hydration read and until its
  result is rendered, whatever is set meanwhile; while a render has not marked the store
  hydrated, \<open>setItem\<close> has not been called and the items are untouched, after any events;
  and when the store holds a non-empty text under the key that parses, the value of the
  render after the read is the parsed value.
\<close>

theorem hydration_sequencing:
  "(get (fst (run js (map Set as) (useLocalStorage k v0, w))) = v0 \<and>
    get (fst (run js (map Set as @ [Tick]) (useLocalStorage k v0, w))) = v0) \<and>
   (\<not> isHydrated (fst (run js evs (useLocalStorage k v0, w))) \<longrightarrow>
      setItem_calls (snd (run js evs (useLocalStorage k v0, w))) = setItem_calls w \<and>
      items (snd (run js evs (useLocalStorage k v0, w))) = items w) \<and>
   (window w \<and> \<not> getItem_throws w \<and> items w k = Some t \<and> t \<noteq> [] \<and> parse js t = Inr v \<longrightarrow>
      get (fst (run js [Tick, Tick] (useLocalStorage k v0, w))) = v \<and>
      isHydrated (fst (run js [Tick, Tick] (useLocalStorage k v0, w))))"
proof (intro conjI impI)
  show "get (fst (run js (map Set as) (useLocalStorage k v0, w))) = v0"
    by (simp add: run_Set get_def) (simp add: useLocalStorage_def)
  show "get (fst (run js (map Set as @ [Tick]) (useLocalStorage k v0, w))) = v0"
    unfolding run_append run_Set
    by (simp add: run_def tick_def run_effects_hook get_def useLocalStorage_def)
  have u: "unwritten (setItem_calls w) (items w) (useLocalStorage k v0, w)"
    by (simp add: unwritten_def useLocalStorage_def)
  assume "\<not> isHydrated (fst (run js evs (useLocalStorage k v0, w)))"
  with unwritten_run [OF u, of js evs]
  show "setItem_calls (snd (run js evs (useLocalStorage k v0, w))) = setItem_calls w"
    and "items (snd (run js evs (useLocalStorage k v0, w))) = items w"
    by (simp_all add: unwritten_def)
next
  assume a: "window w \<and> \<not> getItem_throws w \<and> items w k = Some t \<and> t \<noteq> [] \<and> parse js t = Inr v"
  then show "get (fst (run js [Tick, Tick] (useLocalStorage k v0, w))) = v"
    unfolding mount_render
    by (simp add: get_def hydrated_value_def loaded_def getItem_def useLocalStorage_def)
  show "isHydrated (fst (run js [Tick, Tick] (useLocalStorage k v0, w)))"
    unfolding mount_render by simp
qed

theorem hydration_sequencing_witness:
  "\<not> isHydrated (fst (run string_js [Tick] (useLocalStorage ''test-key'' ''initial'', saved_browser))) \<and>
   setItem_calls (snd (run string_js [Tick] (useLocalStorage ''test-key'' ''initial'', saved_browser))) = [] \<and>
   window saved_browser \<and> \<not> getItem_throws saved_browser \<and>
   items saved_browser ''test-key'' = Some (quoteJSONString ''saved-value'') \<and>
   quoteJSONString ''saved-value'' \<noteq> [] \<and>
   parse string_js (quoteJSONString ''saved-value'') = Inr ''saved-value'' \<and>
   get (fst (run string_js [Tick, Tick] (useLocalStorage ''test-key'' ''initial'', saved_browser))) = ''saved-value''"
proof -
  have a: "\<not> isHydrated (fst (run string_js [Tick] (useLocalStorage ''test-key'' ''initial'', saved_browser)))"
    by code_simp
  have p: "window saved_browser \<and> \<not> getItem_throws saved_browser \<and>
      items saved_browser ''test-key'' = Some (quoteJSONString ''saved-value'') \<and>
      quoteJSONString ''saved-value'' \<noteq> [] \<and>
      parse string_js (quoteJSONString ''saved-value'') = Inr ''saved-value'' \<and>
      setItem_calls saved_browser = []"
    by code_simp
  from hydration_sequencing [where js = string_js and k = "''test-key''" and ?v0.0 = "''initial''"
      and w = saved_browser and evs = "[Tick]" and t = "quoteJSONString ''saved-value''"
      and v = "''saved-value''"] a p
  show ?thesis
    by simp
qed

text \<open>
  C9. In a browser, the render that marks the store hydrated is followed at once by one
  \<open>setItem\<close> of the serialized value of that render under the key, with no call of the
  setter by the user; nothing was written before; and when nothing was stored under the
  key, that value is the initial value.
\<close>

theorem write_on_hydration:
  "window w \<Longrightarrow>
   stringify js (get (fst (run js [Tick, Tick] (useLocalStorage k v0, w)))) = Inr str \<Longrightarrow>
   isHydrated (fst (run js [Tick, Tick] (useLocalStorage k v0, w))) \<and>
   setItem_calls (snd (run js [Tick, Tick] (useLocalStorage k v0, w))) = setItem_calls w \<and>
   setItem_calls (snd (run js [Tick, Tick, Tick] (useLocalStorage k v0, w))) =
     setItem_calls w @ [(k, str)] \<and>
   (\<not> setItem_throws w \<longrightarrow>
      items (snd (run js [Tick, Tick, Tick] (useLocalStorage k v0, w))) k = Some str) \<and>
   (\<not> getItem_throws w \<and> items w k = None \<longrightarrow>
      get (fst (run js [Tick, Tick] (useLocalStorage k v0, w))) = v0)"
proof -
  assume w: "window w"
    and s: "stringify js (get (fst (run js [Tick, Tick] (useLocalStorage k v0, w)))) = Inr str"
  have s': "stringify js (hydrated_value js k v0 w) = Inr str"
    using s unfolding mount_render by (simp add: get_def)
  show ?thesis
    using mount_persist [OF w s']
    unfolding mount_render
    by (simp add: hydrate_world get_def hydrated_value_def loaded_def getItem_def w
        useLocalStorage_def)
qed

theorem write_on_hydration_witness:
  "window browser \<and>
   stringify string_js (get (fst (run string_js [Tick, Tick] (useLocalStorage ''test-key'' ''initial'', browser)))) = Inr (quoteJSONString ''initial'') \<and>
   \<not> setItem_throws browser \<and> \<not> getItem_throws browser \<and> items browser ''test-key'' = None \<and>
   setItem_calls (snd (run string_js [Tick, Tick, Tick] (useLocalStorage ''test-key'' ''initial'', browser))) =
     setItem_calls browser @ [(''test-key'', quoteJSONString ''initial'')] \<and>
   items (snd (run string_js [Tick, Tick, Tick] (useLocalStorage ''test-key'' ''initial'', browser))) ''test-key'' = Some (quoteJSONString ''initial'') \<and>
   get (fst (run string_js [Tick, Tick] (useLocalStorage ''test-key'' ''initial'', browser))) = ''initial''"
proof -
  have w: "window browser"
    by (simp add: browser_def)
  have s: "stringify string_js (get (fst (run string_js [Tick, Tick] (useLocalStorage ''test-key'' ''initial'', browser)))) =
             Inr (quoteJSONString ''initial'')"
    by code_simp
  have p: "\<not> setItem_throws browser \<and> \<not> getItem_throws browser \<and> items browser ''test-key'' = None"
    by (simp add: browser_def)
  from write_on_hydration [OF w s] w s p
  show ?thesis
    by simp
qed

section \<open>Writes after hydration\<close>

text \<open>
  C5, as the code has it. Take any state a store has reached in a browser in which it is
  hydrated and the effects of its last render have run, and any calls of the setter, one
  or several, made before the next render. React renders them together, and the value is
  the result of all of them in order. When that result is not the same (\<open>Object.is\<close>) as
  the value before, the second effect runs once: \<open>setItem\<close> is called once with the
  serialization of the result under the key (and the item is stored unless \<open>setItem\<close>
  throws); what an earlier call of the batch gave is not written. When the result is the
  same, the effect does not run: nothing is called and nothing is written.
\<close>

theorem set_writes_when_changed:
  assumes "run js evs (useLocalStorage k v0, w0) = (h, w)"
    and "window w0" and "isHydrated h"
    and "\<not> hydrateScheduled h" and "\<not> persistScheduled h"
    and "as \<noteq> []"
  shows "get (fst (run js (map Set as @ [Tick, Tick]) (h, w))) =
           foldl reducer (value h) (valueQueue h @ as) \<and>
         (\<not> object_is js (value h) (foldl reducer (value h) (valueQueue h @ as)) \<longrightarrow>
            (\<forall>str. stringify js (foldl reducer (value h) (valueQueue h @ as)) = Inr str \<longrightarrow>
               setItem_calls (snd (run js (map Set as @ [Tick, Tick]) (h, w))) =
                 setItem_calls w @ [(k, str)] \<and>
               (\<not> setItem_throws w0 \<longrightarrow>
                  items (snd (run js (map Set as @ [Tick, Tick]) (h, w))) k = Some str))) \<and>
         (object_is js (value h) (foldl reducer (value h) (valueQueue h @ as)) \<longrightarrow>
            snd (run js (map Set as @ [Tick, Tick]) (h, w)) = w)"
proof -
  let ?h = "h\<lparr>valueQueue := valueQueue h @ as\<rparr>"
  have s: "run js (map Set as @ [Tick, Tick]) (h, w) = run js [Tick, Tick] (?h, w)"
    by (simp add: run_append run_Set)
  have r: "run js (evs @ map Set as) (useLocalStorage k v0, w0) = (?h, w)"
    by (simp add: run_append assms(1) run_Set)
  from render_then_persist [OF r assms(2)] assms(3-6)
  show ?thesis
    unfolding s by simp
qed

theorem set_writes_when_changed_witness:
  "run string_js [Tick, Tick, Tick] (useLocalStorage ''test-key'' ''initial'', browser) =
     ((useLocalStorage ''test-key'' ''initial'')
        \<lparr>isHydrated := True, hydrateScheduled := False, persistScheduled := False\<rparr>,
      browser\<lparr>items := [''test-key'' \<mapsto> quoteJSONString ''initial''],
        setItem_calls := [(''test-key'', quoteJSONString ''initial'')]\<rparr>) \<and>
   window browser \<and>
   \<not> object_is string_js ''initial'' ''y'' \<and>
   stringify string_js ''y'' = Inr (quoteJSONString ''y'') \<and>
   get (fst (run string_js (map Set [SetVal ''x'', SetVal ''y''] @ [Tick, Tick])
     (run string_js [Tick, Tick, Tick] (useLocalStorage ''test-key'' ''initial'', browser)))) = ''y'' \<and>
   setItem_calls (snd (run string_js (map Set [SetVal ''x'', SetVal ''y''] @ [Tick, Tick])
     (run string_js [Tick, Tick, Tick] (useLocalStorage ''test-key'' ''initial'', browser)))) =
     [(''test-key'', quoteJSONString ''initial''), (''test-key'', quoteJSONString ''y'')] \<and>
   object_is string_js ''initial'' ''initial'' \<and>
   snd (run string_js (map Set [SetVal ''initial''] @ [Tick, Tick])
     (run string_js [Tick, Tick, Tick] (useLocalStorage ''test-key'' ''initial'', browser))) =
     snd (run string_js [Tick, Tick, Tick] (useLocalStorage ''test-key'' ''initial'', browser))"
proof -
  let ?h = "(useLocalStorage ''test-key'' ''initial'')
        \<lparr>isHydrated := True, hydrateScheduled := False, persistScheduled := False\<rparr>"
  let ?w = "browser\<lparr>items := [''test-key'' \<mapsto> quoteJSONString ''initial''],
        setItem_calls := [(''test-key'', quoteJSONString ''initial'')]\<rparr>"
  have r: "run string_js [Tick, Tick, Tick] (useLocalStorage ''test-key'' ''initial'', browser) =
      (?h, ?w)"
    unfolding prod_eq_iff
    by (simp add: run_def tick_def run_effects_def hydrate_def persist_def render_def
        useLocalStorage_def browser_def string_js_def getItem_def setItem_def called_setItem_def
        setValue_def setIsHydrated_def JSON_stringify_def Let_def)
  have a: "window browser" "isHydrated ?h" "\<not> hydrateScheduled ?h" "\<not> persistScheduled ?h"
    "value ?h = ''initial''" "valueQueue ?h = []" "setItem_calls ?w = [(''test-key'', quoteJSONString ''initial'')]"
    by (simp_all add: browser_def useLocalStorage_def)
  have o: "\<not> object_is string_js ''initial'' ''y''" "object_is string_js ''initial'' ''initial''"
    "stringify string_js ''y'' = Inr (quoteJSONString ''y'')"
    by (simp_all add: string_js_def JSON_stringify_def)
  from set_writes_when_changed [OF r a(1-4), of "[SetVal ''x'', SetVal ''y'']"]
    set_writes_when_changed [OF r a(1-4), of "[SetVal ''initial'']"] a o
  show ?thesis
    unfolding r by simp
qed

text \<open>
  C5, as the claim has it, fails: on the hydrated string store of the tests, setting the
  value it already has calls \<open>setItem\<close> no further time.
\<close>

theorem set_same_value_no_write:
  "isHydrated (fst (run string_js [Tick, Tick, Tick] (useLocalStorage ''test-key'' ''initial'', browser))) \<and>
   get (fst (run string_js [Tick, Tick, Tick] (useLocalStorage ''test-key'' ''initial'', browser))) = ''initial'' \<and>
   setItem_calls (snd (run string_js [Tick, Tick, Tick] (useLocalStorage ''test-key'' ''initial'', browser))) =
     [(''test-key'', quoteJSONString ''initial'')] \<and>
   setItem_calls (snd (run string_js [Tick, Tick, Tick, Set (SetVal ''initial''), Tick, Tick]
       (useLocalStorage ''test-key'' ''initial'', browser))) =
     [(''test-key'', quoteJSONString ''initial'')]"
  by code_simp

section \<open>Reordering\<close>

text \<open>
  C2, as the code has it. The list is the one the next render would show. When both ids
  are found and at different positions, the render after \<open>handleDragEnd\<close> shows the list
  with the source record at the target's former position, the records between shifted by
  one slot, all records as they were. When both are found at the same position, when the
  two ids are equal, or when the drag ends over nothing, \<open>handleDragEnd\<close> sets nothing. An
  id that is not in the list is not looked for before \<open>arrayMove\<close> is called.
\<close>

theorem handleDragEnd_relocates:
  "(findIndex (\<lambda>item. todo_id item = activeId) (get (render js h)) = int i \<and>
    findIndex (\<lambda>item. todo_id item = overId) (get (render js h)) = int j \<and> i \<noteq> j \<longrightarrow>
      relocated (get (render js h)) i j
        (get (render js (handleDragEnd activeId (Some overId) h)))) \<and>
   (findIndex (\<lambda>item. todo_id item = activeId) (get (render js h)) = int i \<and>
    findIndex (\<lambda>item. todo_id item = overId) (get (render js h)) = int i \<longrightarrow>
      handleDragEnd activeId (Some overId) h = h) \<and>
   (activeId = overId \<longrightarrow> handleDragEnd activeId (Some overId) h = h) \<and>
   handleDragEnd activeId None h = h"
proof (intro conjI impI)
  let ?xs = "get (render js h)"
  assume a: "findIndex (\<lambda>item. todo_id item = activeId) ?xs = int i \<and>
    findIndex (\<lambda>item. todo_id item = overId) ?xs = int j \<and> i \<noteq> j"
  then have b: "i < length ?xs" "j < length ?xs" "i \<noteq> j"
    by (simp_all add: findIndex_found)
  have ne: "activeId \<noteq> overId"
    using a by auto
  have "get (render js (handleDragEnd activeId (Some overId) h)) =
          map the (moveItems activeId overId ?xs)"
    using ne by (simp add: handleDragEnd_def get_render setValue_def)
  also have "\<dots> = take j (take i ?xs @ drop (Suc i) ?xs) @ [?xs ! i] @
                     drop j (take i ?xs @ drop (Suc i) ?xs)"
    using a arrayMove_valid [OF b(1,2)]
    by (simp add: moveItems_def Let_def comp_def)
  finally show "relocated ?xs i j (get (render js (handleDragEnd activeId (Some overId) h)))"
    using relocated_closed [OF b] by simp
next
  assume "findIndex (\<lambda>item. todo_id item = activeId) (get (render js h)) = int i \<and>
    findIndex (\<lambda>item. todo_id item = overId) (get (render js h)) = int i"
  then have "activeId = overId"
    using findIndex_same by blast
  then show "handleDragEnd activeId (Some overId) h = h"
    by (simp add: handleDragEnd_def)
qed (simp_all add: handleDragEnd_def)

theorem handleDragEnd_relocates_witness:
  "findIndex (\<lambda>item. todo_id item = ''b'') (get (render todos_js twoTodos)) = int 1 \<and>
   findIndex (\<lambda>item. todo_id item = ''a'') (get (render todos_js twoTodos)) = int 0 \<and>
   (1::nat) \<noteq> 0 \<and>
   relocated (get (render todos_js twoTodos)) 1 0
     (get (render todos_js (handleDragEnd ''b'' (Some ''a'') twoTodos))) \<and>
   get (render todos_js (handleDragEnd ''b'' (Some ''a'') twoTodos)) = [walkDog, buyMilk] \<and>
   handleDragEnd ''a'' (Some ''a'') twoTodos = twoTodos"
proof -
  have f: "findIndex (\<lambda>item. todo_id item = ''b'') (get (render todos_js twoTodos)) = int 1 \<and>
      findIndex (\<lambda>item. todo_id item = ''a'') (get (render todos_js twoTodos)) = int 0 \<and>
      (1::nat) \<noteq> 0"
    by code_simp
  have g: "get (render todos_js (handleDragEnd ''b'' (Some ''a'') twoTodos)) = [walkDog, buyMilk]"
    by code_simp
  from handleDragEnd_relocates [of "''b''" todos_js twoTodos 1 "''a''" 0]
    handleDragEnd_relocates [of "''a''" todos_js twoTodos 0 "''a''" 0] f g
  show ?thesis by simp
qed

text \<open>
  C2, as the claim has it, fails where an id is missing: \<open>findIndex\<close> gives \<open>-1\<close>, which
  \<open>arrayMove\<close> takes for the last position, and the list is reordered.
\<close>

theorem move_missing_id_reorders:
  "''zz'' \<notin> set (map todo_id (get twoTodos)) \<and>
   get twoTodos = [buyMilk, walkDog] \<and>
   moveItems ''zz'' ''a'' (get twoTodos) = [Some walkDog, Some buyMilk] \<and>
   get (render todos_js (handleDragEnd ''zz'' (Some ''a'') twoTodos)) = [walkDog, buyMilk] \<and>
   get (render todos_js (handleDragEnd ''zz'' (Some ''a'') twoTodos)) \<noteq> get twoTodos"
  by code_simp

section \<open>Appending and toggling\<close>

text \<open>
  C6. \<open>addTodo\<close> with a text that trims to the empty string does nothing. Otherwise the
  list of the next render is the list the handler saw with one record more at its end:
  the given fresh id, the trimmed text, not completed, created at the given time; the
  records before it are the old ones in their order.
\<close>

theorem addTodo_appends:
  "(trim entered = [] \<longrightarrow> addTodo uuid now entered h = h) \<and>
   (trim entered \<noteq> [] \<longrightarrow>
      get (render js (addTodo uuid now entered h)) =
        get h @ [\<lparr>todo_id = uuid, text = trim entered, completed = False, createdAt = Date now\<rparr>] \<and>
      length (get (render js (addTodo uuid now entered h))) = length (get h) + 1)"
  by (simp add: addTodo_def get_render_setValue Let_def) (simp add: get_def)

theorem addTodo_appends_witness:
  "trim '' Buy milk  '' \<noteq> [] \<and> trim ''   '' = [] \<and>
   addTodo ''a'' 0 ''   '' TodoList = TodoList \<and>
   get (render todos_js (addTodo ''a'' 0 '' Buy milk  '' TodoList)) = get TodoList @ [buyMilk] \<and>
   length (get (render todos_js (addTodo ''a'' 0 '' Buy milk  '' TodoList))) = length (get TodoList) + 1"
proof -
  have t: "trim '' Buy milk  '' = ''Buy milk''" "trim ''   '' = []"
    by code_simp+
  from addTodo_appends [where entered = "''   ''" and uuid = "''a''" and now = 0 and h = TodoList
      and js = todos_js]
    addTodo_appends [where entered = "'' Buy milk  ''" and uuid = "''a''" and now = 0
      and h = TodoList and js = todos_js] t
  show ?thesis
    by (simp add: buyMilk_def)
qed

text \<open>
  C7. The render after \<open>toggleTodo\<close> shows a list of the same length in which every record
  with the given id has \<open>completed\<close> flipped and every other record is the same at the same
  position; toggling twice, with the render between, gives the list back; and with an id
  that no record has the list is as before.
\<close>

theorem toggleTodo_flips:
  "length (get (render js (toggleTodo i h))) = length (get h) \<and>
   (\<forall>k < length (get h).
      get (render js (toggleTodo i h)) ! k =
        (if todo_id (get h ! k) = i then (get h ! k)\<lparr>completed := \<not> completed (get h ! k)\<rparr>
         else get h ! k)) \<and>
   get (render js (toggleTodo i (render js (toggleTodo i h)))) = get h \<and>
   (i \<notin> set (map todo_id (get h)) \<longrightarrow> get (render js (toggleTodo i h)) = get h)"
proof -
  have r: "get (render js (toggleTodo i h)) =
             map (\<lambda>todo. if todo_id todo = i then todo\<lparr>completed := \<not> completed todo\<rparr> else todo) (get h)"
    for h :: "todo list hook"
    by (simp add: toggleTodo_def get_render_setValue) (simp add: get_def)
  show ?thesis
    unfolding r using toggle_twice [of i "get h"] toggle_absent [of i "get h"]
    by (simp del: map_map)
qed

theorem toggleTodo_flips_witness:
  "(0::nat) < length (get twoTodos) \<and> todo_id (get twoTodos ! 0) = ''a'' \<and>
   get (render todos_js (toggleTodo ''a'' twoTodos)) ! 0 = buyMilk\<lparr>completed := True\<rparr> \<and>
   ''zz'' \<notin> set (map todo_id (get twoTodos)) \<and>
   get (render todos_js (toggleTodo ''zz'' twoTodos)) = [buyMilk, walkDog]"
proof -
  have g: "get twoTodos = [buyMilk, walkDog]"
    by code_simp
  have a: "todo_id buyMilk = ''a''" "\<not> completed buyMilk" "todo_id walkDog = ''b''"
    by (simp_all add: buyMilk_def walkDog_def)
  from toggleTodo_flips [of todos_js "''a''" twoTodos] toggleTodo_flips [of todos_js "''zz''" twoTodos] g a
  show ?thesis
    by simp
qed

section \<open>The order of operations\<close>

text \<open>
  React applies queued actions in the order of the calls, an updater to the result of the
  actions before it; \<open>handleDragEnd\<close> passes such an updater, so the move is computed from
  the latest list. \<open>toggleTodo\<close>, \<open>deleteTodo\<close> and \<open>addTodo\<close> pass a list computed from
  \<open>todos\<close> of the last render. Operations issued one per render are applied to the list in
  the order in which they were issued.
\<close>

lemma operations_in_order:
  "(valueQueue h = [] \<longrightarrow> get (one_per_render js es h) = apply_all es (get h)) \<and>
   get (render js (setValue (SetFn f) h)) = f (get (render js h)) \<and>
   get (render js (handle (DragEnd activeId over) h)) =
     applied (DragEnd activeId over) (get (render js h)) \<and>
   get (render js (handle (ToggleTodo i) h)) = applied (ToggleTodo i) (get h) \<and>
   get (render js (handle (DeleteTodo i) h)) = applied (DeleteTodo i) (get h) \<and>
   (trim entered \<noteq> [] \<longrightarrow>
      get (render js (handle (AddTodo uuid now entered) h)) = applied (AddTodo uuid now entered) (get h))"
proof (intro conjI impI)
  show "get (one_per_render js es h) = apply_all es (get h)" if "valueQueue h = []"
    using that by (rule one_per_render_applied)
  show "get (render js (setValue (SetFn f) h)) = f (get (render js h))"
    by (simp add: get_render setValue_def)
  show "get (render js (handle (DragEnd activeId over) h)) =
     applied (DragEnd activeId over) (get (render js h))"
    by (simp add: handleDragEnd_def get_render setValue_def split: option.splits)
  show "get (render js (handle (ToggleTodo i) h)) = applied (ToggleTodo i) (get h)"
    by (simp add: toggleTodo_def get_render setValue_def) (simp add: get_def)
  show "get (render js (handle (DeleteTodo i) h)) = applied (DeleteTodo i) (get h)"
    by (simp add: deleteTodo_def get_render setValue_def) (simp add: get_def)
  show "get (render js (handle (AddTodo uuid now entered) h)) = applied (AddTodo uuid now entered) (get h)"
    if "trim entered \<noteq> []"
    using that by (simp add: addTodo_def get_render setValue_def Let_def) (simp add: get_def)
qed


section \<open>Distinct ids\<close>

text \<open>
  C8, as the code has it. When the text stored under \<open>todos\<close>, if it parses, parses to a
  list with pairwise distinct ids, and every id \<open>addTodo\<close> draws is not the id of a record
  of the list it appends to, then after any sequence of appends, toggles, removals, moves
  and turns of the scheduler (the hydration among them) the ids of the list are pairwise
  distinct.
\<close>

theorem ids_stay_distinct:
  assumes "\<forall>t v. items w ''todos'' = Some t \<and> parse js t = Inr v \<longrightarrow> distinct (map todo_id v)"
    and "fresh_ids js (TodoList, w) evs"
  shows "distinct (map todo_id (get (fst (app_run js evs (TodoList, w)))))"
proof -
  have "ids_invariant (items w ''todos'') (TodoList, w)"
    by (simp add: ids_invariant_def TodoList_def useLocalStorage_def)
  from ids_invariant_run [OF assms(1) this assms(2)]
  show ?thesis
    by (simp add: ids_invariant_def get_def)
qed

theorem ids_stay_distinct_witness:
  "items (stored_browser [buyMilk, walkDog]) ''todos'' = Some (serialize (JArray (map todoToJSON [buyMilk, walkDog]))) \<and>
   parse todos_js (serialize (JArray (map todoToJSON [buyMilk, walkDog]))) =
     Inr [buyMilk\<lparr>createdAt := ISOString ''1970-01-01T00:00:00.000Z''\<rparr>,
          walkDog\<lparr>createdAt := ISOString ''1970-01-01T00:00:01.000Z''\<rparr>] \<and>
   fresh_ids todos_js (TodoList, (stored_browser [buyMilk, walkDog])) [Turn, Turn, Turn, Do (AddTodo ''c'' 2000 ''Call home''), Turn, Turn,
      Do (DragEnd ''c'' (Some ''a'')), Turn] \<and>
   distinct (map todo_id (get (fst (app_run todos_js [Turn, Turn, Turn, Do (AddTodo ''c'' 2000 ''Call home''), Turn, Turn,
      Do (DragEnd ''c'' (Some ''a'')), Turn] (TodoList, (stored_browser [buyMilk, walkDog]))))))"
proof -
  have i: "items (stored_browser [buyMilk, walkDog]) ''todos'' = Some (serialize (JArray (map todoToJSON [buyMilk, walkDog])))"
    by (simp add: stored_browser_def)
  have p: "parse todos_js (serialize (JArray (map todoToJSON [buyMilk, walkDog]))) =
     Inr [buyMilk\<lparr>createdAt := ISOString ''1970-01-01T00:00:00.000Z''\<rparr>,
          walkDog\<lparr>createdAt := ISOString ''1970-01-01T00:00:01.000Z''\<rparr>]"
    by code_simp
  have d: "\<forall>t v. items (stored_browser [buyMilk, walkDog]) ''todos'' = Some t \<and> parse todos_js t = Inr v \<longrightarrow>
      distinct (map todo_id v)"
    using i p by (auto simp add: buyMilk_def walkDog_def)
  have f: "fresh_ids todos_js (TodoList, (stored_browser [buyMilk, walkDog])) [Turn, Turn, Turn, Do (AddTodo ''c'' 2000 ''Call home''), Turn, Turn,
      Do (DragEnd ''c'' (Some ''a'')), Turn]"
    by code_simp
  from ids_stay_distinct [OF d f] i p f
  show ?thesis
    by (simp only: simp_thms)
qed

text \<open>
  C8, as the claim has it, fails for a hydrated payload: the hook takes what it parses,
  and a stored list with the same id twice becomes the list.
\<close>

theorem hydrated_duplicate_ids:
  "get (fst (app_run todos_js [Turn, Turn] (TodoList, stored_browser [buyMilk, buyMilk]))) =
     [buyMilk\<lparr>createdAt := ISOString ''1970-01-01T00:00:00.000Z''\<rparr>,
      buyMilk\<lparr>createdAt := ISOString ''1970-01-01T00:00:00.000Z''\<rparr>] \<and>
   \<not> distinct (map todo_id
      (get (fst (app_run todos_js [Turn, Turn] (TodoList, stored_browser [buyMilk, buyMilk])))))"
  by code_simp

end
